theory Spec2Isabelle
  imports Complex_Main "HOL-Library.Log_Nat"
begin

section \<open>Python values and built-ins used by projectile.py\<close>

text \<open>
  Numbers. A Python \<open>int\<close> is an \<^typ>\<open>int\<close>. A Python \<open>float\<close> is an IEEE-754 double:
  a finite double is a real number, and the results of float arithmetic are the type
  \<open>pyfloat\<close> below, a finite value, one of the two infinities or NaN. Every float
  operation is the exact operation on reals followed by one rounding to the nearest double
  (\<open>fl\<close>), with overflow to an infinity and gradual underflow to zero.

  Three idealisations remain. The sign of a zero is not kept (\<open>-0.0\<close> is \<open>0.0\<close>); in
  class Projectile it changes neither an exception nor a result other than the sign
  of a zero. The library functions \<open>math.sin\<close>,
  \<open>math.cos\<close>, \<open>math.tan\<close> and the C \<open>pow\<close> behind \<open>x ** 2\<close> are taken as correctly
  rounded; a C library may return a neighbouring double. The speed, the height and
  the angle of a projectile are finite floats.

  Exceptions are values: a function that can raise returns \<open>error + 'a\<close>, with \<open>Inl\<close>
  the exception.
\<close>

datatype error =
    ValueError          \<comment> \<open>\<open>math.sqrt\<close> of a negative number; \<open>max\<close> of an empty sequence\<close>
  | ZeroDivisionError   \<comment> \<open>float division by zero\<close>
  | IndexError          \<comment> \<open>list index out of range\<close>
  | OverflowError       \<comment> \<open>\<open>x ** 2\<close> out of range; an \<open>int\<close> or an infinity that cannot be converted\<close>

text \<open>\<open>round(x)\<close> on a float: the nearest integer, a tie going to the even one.\<close>

definition py_round :: "real \<Rightarrow> int" where
  "py_round x =
     (let f = \<lfloor>x\<rfloor>; r = x - of_int f
      in if r < 1 / 2 then f
         else if 1 / 2 < r then f + 1
         else if even f then f else f + 1)"

text \<open>\<open>range(n)\<close> is \<open>0, \<dots>, n - 1\<close>, empty for \<open>n \<le> 0\<close>.\<close>

definition py_range :: "int \<Rightarrow> int list" where
  "py_range n = [0..n - 1]"

subsection \<open>Double rounding in the unit conversions\<close>

text \<open>
  \<open>ilog2 x\<close> is \<open>\<lfloor>log\<^sub>2 x\<rfloor>\<close> for \<open>x > 0\<close>, computed on integers.
  \<open>round_to_double x\<close> is the real with a 53-bit significand nearest to \<open>x\<close>, ties to
  the even significand: the result of an IEEE-754 operation whose exact value is \<open>x\<close>,
  as long as \<open>x\<close> is zero or in the normal range of a double
  (\<open>2 powi (- 1022) \<le> \<bar>x\<bar>\<close> and \<open>\<bar>x\<bar> < 2 powi 1024\<close>); the exponent is not bounded here.
\<close>

definition ilog2 :: "real \<Rightarrow> int" where
  "ilog2 x = (if 1 \<le> x then bitlen \<lfloor>x\<rfloor> - 1 else - bitlen (\<lceil>1 / x\<rceil> - 1))"

definition round_to_double :: "real \<Rightarrow> real" where
  "round_to_double x =
     (if x = 0 then 0
      else let e = ilog2 \<bar>x\<bar> - 52
           in of_int (py_round (x / 2 powi e)) * 2 powi e)"

text \<open>
  CPython's \<open>math.radians(x)\<close> is \<open>x * degToRad\<close> and \<open>math.degrees(x)\<close> is
  \<open>x * radToDeg\<close>, where \<open>degToRad\<close> and \<open>radToDeg\<close> are the doubles nearest to
  \<open>\<pi> / 180\<close> and \<open>180 / \<pi>\<close>: \<open>0x1.1df46a2529d39p-6\<close> and \<open>0x1.ca5dc1a63c1f8p+5\<close>.
\<close>

definition degToRad :: real where
  "degToRad = 5030569068109113 / 2 ^ 58"

definition radToDeg :: real where
  "radToDeg = 1007958012753983 / 2 ^ 44"

definition math_radians :: "real \<Rightarrow> real" where
  "math_radians x = round_to_double (x * degToRad)"

definition math_degrees :: "real \<Rightarrow> real" where
  "math_degrees x = round_to_double (x * radToDeg)"

subsection \<open>Float arithmetic\<close>

datatype pyfloat = Fin real | PInf | NInf | NaN

text \<open>
  \<open>fl x\<close> is the double an IEEE-754 operation returns when its exact result is \<open>x\<close>:
  \<open>x\<close> rounded to a multiple of \<open>2 powi quantum x\<close>, a tie going to the even multiple.
  The quantum leaves 53 significant bits and is at least \<open>- 1074\<close> (below the normal
  range the spacing of the doubles stays \<open>2 powi (- 1074)\<close>, and a small \<open>x\<close> rounds to
  zero); a rounded magnitude of \<open>2 powi 1024\<close> or more is an infinity.
\<close>

definition quantum :: "real \<Rightarrow> int" where
  "quantum x = max (ilog2 \<bar>x\<bar> - 52) (- 1074)"

definition rounded :: "real \<Rightarrow> real" where
  "rounded x = of_int (py_round (x / 2 powi quantum x)) * 2 powi quantum x"

definition fl :: "real \<Rightarrow> pyfloat" where
  "fl x =
     (if x = 0 then Fin 0
      else if 2 powi 1024 \<le> \<bar>rounded x\<bar> then (if 0 < x then PInf else NInf)
      else Fin (rounded x))"

definition is_fin :: "pyfloat \<Rightarrow> bool" where
  "is_fin a = (case a of Fin _ \<Rightarrow> True | _ \<Rightarrow> False)"

text \<open>\<open>a < 0\<close> on floats: false for NaN.\<close>

definition is_negative :: "pyfloat \<Rightarrow> bool" where
  "is_negative a = (case a of Fin x \<Rightarrow> x < 0 | NInf \<Rightarrow> True | _ \<Rightarrow> False)"

fun fneg :: "pyfloat \<Rightarrow> pyfloat" where
  "fneg (Fin a) = Fin (- a)"
| "fneg PInf = NInf"
| "fneg NInf = PInf"
| "fneg NaN = NaN"

text \<open>\<open>a + b\<close>, \<open>a - b\<close> and \<open>a * b\<close> never raise.\<close>

fun fadd :: "pyfloat \<Rightarrow> pyfloat \<Rightarrow> pyfloat" where
  "fadd (Fin a) (Fin b) = fl (a + b)"
| "fadd NaN b = NaN"
| "fadd a NaN = NaN"
| "fadd PInf NInf = NaN"
| "fadd NInf PInf = NaN"
| "fadd PInf b = PInf"
| "fadd a PInf = PInf"
| "fadd NInf b = NInf"
| "fadd a NInf = NInf"

definition fsub :: "pyfloat \<Rightarrow> pyfloat \<Rightarrow> pyfloat" where
  "fsub a b = fadd a (fneg b)"

fun fmul :: "pyfloat \<Rightarrow> pyfloat \<Rightarrow> pyfloat" where
  "fmul (Fin a) (Fin b) = fl (a * b)"
| "fmul NaN b = NaN"
| "fmul a NaN = NaN"
| "fmul (Fin a) b = (if a = 0 then NaN else if 0 < a then b else fneg b)"
| "fmul a (Fin b) = (if b = 0 then NaN else if 0 < b then a else fneg a)"
| "fmul PInf b = b"
| "fmul NInf b = fneg b"

text \<open>\<open>a / b\<close> raises when \<open>b\<close> is zero, whatever \<open>a\<close> is; \<open>fdivide\<close> is the quotient
  for a divisor other than zero.\<close>

fun fdivide :: "pyfloat \<Rightarrow> pyfloat \<Rightarrow> pyfloat" where
  "fdivide (Fin a) (Fin b) = fl (a / b)"
| "fdivide NaN b = NaN"
| "fdivide a NaN = NaN"
| "fdivide (Fin a) b = Fin 0"
| "fdivide a (Fin b) = (if 0 < b then a else fneg a)"
| "fdivide a b = NaN"

definition fdiv :: "pyfloat \<Rightarrow> pyfloat \<Rightarrow> error + pyfloat" where
  "fdiv a b = (if b = Fin 0 then Inl ZeroDivisionError else Inr (fdivide a b))"

text \<open>\<open>a ** 2\<close> on a float: the rounded square; it raises \<open>OverflowError\<close> when the
  square of a finite \<open>a\<close> is out of range, and a square that underflows is zero.\<close>

fun fsquare :: "pyfloat \<Rightarrow> pyfloat" where
  "fsquare (Fin a) = fl (a * a)"
| "fsquare PInf = PInf"
| "fsquare NInf = PInf"
| "fsquare NaN = NaN"

definition pow2_overflows :: "pyfloat \<Rightarrow> bool" where
  "pow2_overflows a \<longleftrightarrow> is_fin a \<and> \<not> is_fin (fsquare a)"

definition fpow2 :: "pyfloat \<Rightarrow> error + pyfloat" where
  "fpow2 a = (if pow2_overflows a then Inl OverflowError else Inr (fsquare a))"

text \<open>\<open>math.sqrt\<close> raises \<open>ValueError\<close> on a negative number; \<open>fsqrt\<close> is the rounded
  root of the others.\<close>

fun fsqrt :: "pyfloat \<Rightarrow> pyfloat" where
  "fsqrt (Fin a) = fl (sqrt a)"
| "fsqrt PInf = PInf"
| "fsqrt NInf = NaN"
| "fsqrt NaN = NaN"

definition math_sqrt :: "pyfloat \<Rightarrow> error + pyfloat" where
  "math_sqrt a = (if is_negative a then Inl ValueError else Inr (fsqrt a))"

text \<open>The trigonometric functions, at a finite argument.\<close>

definition math_sin :: "real \<Rightarrow> pyfloat" where
  "math_sin x = fl (sin x)"

definition math_cos :: "real \<Rightarrow> pyfloat" where
  "math_cos x = fl (cos x)"

definition math_tan :: "real \<Rightarrow> pyfloat" where
  "math_tan x = fl (tan x)"

text \<open>\<open>math.ceil\<close> returns an \<open>int\<close>; it raises on an infinity and on NaN.\<close>

fun math_ceil :: "pyfloat \<Rightarrow> error + int" where
  "math_ceil (Fin a) = Inr \<lceil>a\<rceil>"
| "math_ceil PInf = Inl OverflowError"
| "math_ceil NInf = Inl OverflowError"
| "math_ceil NaN = Inl ValueError"

text \<open>An \<open>int\<close> operand of a float operation is converted first: the nearest double, or
  \<open>OverflowError\<close> when that is out of range.\<close>

definition float_of_int :: "int \<Rightarrow> error + pyfloat" where
  "float_of_int n = (case fl (of_int n) of Fin r \<Rightarrow> Inr (Fin r) | _ \<Rightarrow> Inl OverflowError)"

section \<open>class Projectile\<close>

text \<open>The literal \<open>9.81\<close> is the double \<open>0x1.39eb851eb851fp+3\<close>.\<close>

definition GRAVITATIONAL_ACCELERATION :: pyfloat where
  "GRAVITATIONAL_ACCELERATION = Fin (5522539043063071 / 2 ^ 49)"

text \<open>The three slots \<open>__speed\<close>, \<open>__height\<close> and \<open>__angle\<close>; the angle is kept in radians.\<close>

record Projectile =
  priv_speed :: real
  priv_height :: real
  priv_angle :: real

definition init_Projectile :: "real \<Rightarrow> real \<Rightarrow> real \<Rightarrow> Projectile" where
  "init_Projectile speed height angle =
     \<lparr>priv_speed = speed, priv_height = height, priv_angle = math_radians angle\<rparr>"

definition calculate_displacement :: "Projectile \<Rightarrow> error + pyfloat" where
  "calculate_displacement self =
     (let horizontal_component = fmul (Fin (priv_speed self)) (math_cos (priv_angle self));
          vertical_component = fmul (Fin (priv_speed self)) (math_sin (priv_angle self))
      in case fpow2 vertical_component of
           Inl e \<Rightarrow> Inl e
         | Inr squared_component \<Rightarrow>
             (let gh_component =
                    fmul (fmul (Fin 2) GRAVITATIONAL_ACCELERATION) (Fin (priv_height self))
              in case math_sqrt (fadd squared_component gh_component) of
                   Inl e \<Rightarrow> Inl e
                 | Inr sqrt_component \<Rightarrow>
                     fdiv (fmul horizontal_component (fadd vertical_component sqrt_component))
                       GRAVITATIONAL_ACCELERATION))"

text \<open>
  The argument \<open>x\<close> is the \<open>int\<close> that \<open>calculate_all_coordinates\<close> passes: \<open>x ** 2\<close> is
  the exact square, and \<open>x\<close> and \<open>x ** 2\<close> are converted where they meet a float. The
  operands are evaluated from left to right: the numerator before the denominator.
\<close>

definition calculate_y_coordinate :: "Projectile \<Rightarrow> int \<Rightarrow> error + pyfloat" where
  "calculate_y_coordinate self x =
     (let height_component = Fin (priv_height self)
      in case float_of_int x of
           Inl e \<Rightarrow> Inl e
         | Inr xf \<Rightarrow>
             (let angle_component = fmul (math_tan (priv_angle self)) xf
              in case float_of_int (x ^ 2) of
                   Inl e \<Rightarrow> Inl e
                 | Inr x2 \<Rightarrow>
                     (case fpow2 (Fin (priv_speed self)) of
                        Inl e \<Rightarrow> Inl e
                      | Inr speed2 \<Rightarrow>
                          (case fpow2 (math_cos (priv_angle self)) of
                             Inl e \<Rightarrow> Inl e
                           | Inr cos2 \<Rightarrow>
                               (case fdiv (fmul GRAVITATIONAL_ACCELERATION x2)
                                       (fmul (fmul (Fin 2) speed2) cos2) of
                                  Inl e \<Rightarrow> Inl e
                                | Inr acceleration_component \<Rightarrow>
                                    Inr (fsub (fadd height_component angle_component)
                                           acceleration_component))))))"

text \<open>The list comprehension of \<open>calculate_all_coordinates\<close>: the displacement is
  computed once, then one point per \<open>x\<close> of the range, stopping at the first exception.\<close>

fun collect_points :: "Projectile \<Rightarrow> int list \<Rightarrow> error + (int \<times> pyfloat) list" where
  "collect_points self [] = Inr []"
| "collect_points self (x # xs) =
     (case calculate_y_coordinate self x of
        Inl e \<Rightarrow> Inl e
      | Inr y \<Rightarrow> (case collect_points self xs of
                   Inl e \<Rightarrow> Inl e
                 | Inr ps \<Rightarrow> Inr ((x, y) # ps)))"

definition calculate_all_coordinates :: "Projectile \<Rightarrow> error + (int \<times> pyfloat) list" where
  "calculate_all_coordinates self =
     (case calculate_displacement self of
        Inl e \<Rightarrow> Inl e
      | Inr d \<Rightarrow>
          (case math_ceil d of
             Inl e \<Rightarrow> Inl e
           | Inr n \<Rightarrow> collect_points self (py_range n)))"

text \<open>The properties: getters and setters.\<close>

definition height :: "Projectile \<Rightarrow> real" where
  "height self = priv_height self"

definition angle :: "Projectile \<Rightarrow> int" where
  "angle self = py_round (math_degrees (priv_angle self))"

definition speed :: "Projectile \<Rightarrow> real" where
  "speed self = priv_speed self"

definition set_height :: "Projectile \<Rightarrow> real \<Rightarrow> Projectile" where
  "set_height self n = self\<lparr>priv_height := n\<rparr>"

definition set_angle :: "Projectile \<Rightarrow> real \<Rightarrow> Projectile" where
  "set_angle self n = self\<lparr>priv_angle := math_radians n\<rparr>"

definition set_speed :: "Projectile \<Rightarrow> real \<Rightarrow> Projectile" where
  "set_speed self s = self\<lparr>priv_speed := s\<rparr>"

section \<open>class Graph\<close>

text \<open>
  The coordinates are the list \<open>calculate_all_coordinates\<close> builds: each \<open>x\<close> an
  \<open>int\<close>, each \<open>y\<close> a float.
\<close>

subsection \<open>The coordinate table\<close>

text \<open>
  The table is ASCII text, a \<^typ>\<open>string\<close>. \<open>str_int\<close> is the decimal numeral of an
  \<open>int\<close>; \<open>rjust w\<close> pads with spaces on the left up to width \<open>w\<close> and never cuts
  (the format \<open>>w\<close>); \<open>format_2f\<close> is the format \<open>.2f\<close>: the sign of the number, then its
  magnitude rounded to hundredths, a tie going to the even hundredth.
\<close>

definition newline :: char where
  "newline = CHR 0x0A"

definition digit :: "nat \<Rightarrow> char" where
  "digit n = char_of (48 + n)"

fun str_nat :: "nat \<Rightarrow> string" where
  "str_nat n = (if n < 10 then [digit n] else str_nat (n div 10) @ [digit (n mod 10)])"

declare str_nat.simps [simp del]

definition str_int :: "int \<Rightarrow> string" where
  "str_int i = (if i < 0 then CHR ''-'' # str_nat (nat (- i)) else str_nat (nat i))"

definition rjust :: "nat \<Rightarrow> string \<Rightarrow> string" where
  "rjust w s = replicate (w - length s) CHR '' '' @ s"

definition format_2f :: "real \<Rightarrow> string" where
  "format_2f y =
     (let n = nat (py_round (\<bar>y\<bar> * 100))
      in (if y < 0 then ''-'' else '''') @ str_nat (n div 100) @ ''.'' @
         [digit (n mod 100 div 10), digit (n mod 10)])"

text \<open>The f-string \<open>{x:>3}{y:>7.2f}\<close> followed by a line break.\<close>

definition format_row :: "int \<Rightarrow> real \<Rightarrow> string" where
  "format_row x y = rjust 3 (str_int x) @ rjust 7 (format_2f y) @ [newline]"

text \<open>The loop \<open>table += \<dots>\<close> over the coordinates, from the initial literal.\<close>

definition create_coordinates_table :: "(int \<times> real) list \<Rightarrow> string" where
  "create_coordinates_table coordinates =
     foldl (\<lambda>table (x, y). table @ format_row x y)
       (newline # ''  x      y'' @ [newline]) coordinates"

subsection \<open>The plot\<close>

text \<open>
  The plot holds characters beyond ASCII, and Python counts a string in code points: a
  string of the plot is the list of its code points. The projectile is U+2219, the tick
  of the vertical axis U+22A3, the tick of the horizontal axis the letter T.
\<close>

type_synonym unistr = "nat list"

definition PROJECTILE :: unistr where
  "PROJECTILE = [0x2219]"

definition x_axis_tick :: unistr where
  "x_axis_tick = [0x54]"

definition y_axis_tick :: unistr where
  "y_axis_tick = [0x22A3]"

definition space :: unistr where
  "space = [0x20]"

definition line_break :: unistr where
  "line_break = [0x0A]"

text \<open>\<open>round\<close> of an \<open>int\<close> is that \<open>int\<close>.\<close>

definition round_int :: "int \<Rightarrow> int" where
  "round_int x = x"

definition rounded_coords :: "(int \<times> real) list \<Rightarrow> (int \<times> int) list" where
  "rounded_coords coordinates = map (\<lambda>(x, y). (round_int x, py_round y)) coordinates"

text \<open>\<open>max(xs, key=f)\<close>: the first element whose key is the largest; \<open>ValueError\<close>
  on an empty list.\<close>

fun py_max_key :: "('a \<Rightarrow> int) \<Rightarrow> 'a list \<Rightarrow> error + 'a" where
  "py_max_key key [] = Inl ValueError"
| "py_max_key key (x # xs) = Inr (foldl (\<lambda>best a. if key best < key a then a else best) x xs)"

text \<open>An index \<open>i\<close> into a list of length \<open>n\<close>: a negative index counts from the end,
  and an index outside \<open>- n, \<dots>, n - 1\<close> raises \<open>IndexError\<close>.\<close>

definition py_index :: "nat \<Rightarrow> int \<Rightarrow> error + nat" where
  "py_index n i =
     (if 0 \<le> i \<and> i < int n then Inr (nat i)
      else if - int n \<le> i \<and> i < 0 then Inr (nat (int n + i))
      else Inl IndexError)"

text \<open>The assignment \<open>m[r][c] = v\<close>. The rows of the matrix are built by a nested
  comprehension, so they are separate lists and the assignment changes one row only.\<close>

definition set_cell :: "'a list list \<Rightarrow> int \<Rightarrow> int \<Rightarrow> 'a \<Rightarrow> error + 'a list list" where
  "set_cell m r c v =
     (case py_index (length m) r of
        Inl e \<Rightarrow> Inl e
      | Inr i \<Rightarrow>
          (case py_index (length (m ! i)) c of
             Inl e \<Rightarrow> Inl e
           | Inr j \<Rightarrow> Inr (m[i := (m ! i)[j := v]])))"

text \<open>The loop \<open>matrix_list[-1 - y][x] = PROJECTILE\<close> over the rounded points.\<close>

fun mark_points :: "unistr list list \<Rightarrow> (int \<times> int) list \<Rightarrow> error + unistr list list" where
  "mark_points m [] = Inr m"
| "mark_points m ((x, y) # ps) =
     (case set_cell m (- 1 - y) x PROJECTILE of
        Inl e \<Rightarrow> Inl e
      | Inr m' \<Rightarrow> mark_points m' ps)"

text \<open>The first half of \<open>create_trajectory\<close>: \<open>matrix_list\<close> after the marking loop.\<close>

definition trajectory_matrix :: "(int \<times> real) list \<Rightarrow> error + unistr list list" where
  "trajectory_matrix coordinates =
     (let rc = rounded_coords coordinates
      in case py_max_key fst rc of
           Inl e \<Rightarrow> Inl e
         | Inr px \<Rightarrow>
             (case py_max_key snd rc of
                Inl e \<Rightarrow> Inl e
              | Inr py \<Rightarrow>
                  (let x_max = fst px; y_max = snd py;
                       matrix_list = replicate (nat (y_max + 1)) (replicate (nat (x_max + 1)) space)
                   in mark_points matrix_list rc)))"

fun py_join :: "'a list \<Rightarrow> 'a list list \<Rightarrow> 'a list" where
  "py_join sep [] = []"
| "py_join sep [s] = s"
| "py_join sep (s # t # ss) = s @ sep @ py_join sep (t # ss)"

text \<open>The second half: the rows joined, the axes added (\<open>matrix[0]\<close> raises
  \<open>IndexError\<close> when there is no row), the lines joined.\<close>

definition create_trajectory :: "(int \<times> real) list \<Rightarrow> error + unistr" where
  "create_trajectory coordinates =
     (case trajectory_matrix coordinates of
        Inl e \<Rightarrow> Inl e
      | Inr matrix_list \<Rightarrow>
          (let matrix = map concat matrix_list
           in case matrix of
                [] \<Rightarrow> Inl IndexError
              | row0 # _ \<Rightarrow>
                  (let matrix_axes = map (\<lambda>row. y_axis_tick @ row) matrix
                         @ [space @ concat (replicate (length row0) x_axis_tick)]
                   in Inr (line_break @ py_join line_break matrix_axes @ line_break))))"

section \<open>The specification's formulas and auxiliary notions\<close>

text \<open>The discriminant as the specification writes it, on real numbers, for speed \<open>v\<close>,
  height \<open>h\<close> and angle \<open>\<theta>\<close> in radians.\<close>

definition discriminant :: "real \<Rightarrow> real \<Rightarrow> real \<Rightarrow> real" where
  "discriminant v h \<theta> = (v * sin \<theta>)\<^sup>2 + 2 * (981 / 100) * h"

text \<open>
  The formulas of the specification in double arithmetic, each operation rounded, in the
  order the specification writes them: the vertical component \<open>v sin \<theta>\<close>, the
  discriminant \<open>(v sin \<theta>)\<^sup>2 + 2 g h\<close>, the range
  \<open>(v cos \<theta>) (v sin \<theta> + sqrt (discriminant)) / g\<close>, the denominator
  \<open>2 v\<^sup>2 cos\<^sup>2 \<theta>\<close> and the height \<open>h + x tan \<theta> - g x\<^sup>2 / denominator\<close>.
\<close>

definition vertical :: "Projectile \<Rightarrow> pyfloat" where
  "vertical self = fmul (Fin (priv_speed self)) (math_sin (priv_angle self))"

definition discriminant_fl :: "Projectile \<Rightarrow> pyfloat" where
  "discriminant_fl self =
     fadd (fsquare (vertical self))
       (fmul (fmul (Fin 2) GRAVITATIONAL_ACCELERATION) (Fin (priv_height self)))"

definition spec_displacement :: "Projectile \<Rightarrow> pyfloat" where
  "spec_displacement self =
     fdivide
       (fmul (fmul (Fin (priv_speed self)) (math_cos (priv_angle self)))
          (fadd (vertical self) (fsqrt (discriminant_fl self))))
       GRAVITATIONAL_ACCELERATION"

definition denominator :: "Projectile \<Rightarrow> pyfloat" where
  "denominator self =
     fmul (fmul (Fin 2) (fsquare (Fin (priv_speed self)))) (fsquare (math_cos (priv_angle self)))"

definition spec_y :: "Projectile \<Rightarrow> int \<Rightarrow> pyfloat" where
  "spec_y self x =
     fsub (fadd (Fin (priv_height self)) (fmul (fl (of_int x)) (math_tan (priv_angle self))))
       (fdivide (fmul GRAVITATIONAL_ACCELERATION (fl (of_int (x\<^sup>2)))) (denominator self))"

text \<open>The table as the specification words it: the header row \<open>'' x      y''\<close> with
  nothing before it, then one row per point, each row followed by a line break.\<close>

definition spec_coordinate_table :: "(int \<times> real) list \<Rightarrow> string" where
  "spec_coordinate_table coordinates =
     '' x      y'' @ [newline] @
     concat (map (\<lambda>(x, y). rjust 3 (str_int x) @ rjust 7 (format_2f y) @ [newline]) coordinates)"

text \<open>A matrix of \<open>h\<close> rows of \<open>w\<close> cells each.\<close>

definition grid :: "nat \<Rightarrow> nat \<Rightarrow> 'a list list \<Rightarrow> bool" where
  "grid h w m \<longleftrightarrow> length m = h \<and> (\<forall>row \<in> set m. length row = w)"

section \<open>Example projectiles\<close>

text \<open>
  The projectiles at which the theorems below are evaluated. The speeds \<open>2\<^sup>6\<^sup>0\<^sup>0\<close> and
  \<open>2\<^sup>-\<^sup>6\<^sup>0\<^sup>0\<close> are doubles (about \<open>4.1e180\<close> and \<open>2.4e-181\<close>): the square of the first is
  beyond the largest double, the square of the second below the smallest.
\<close>

definition huge_speed :: real where
  "huge_speed = 2 ^ 600"

definition fast_projectile :: Projectile where
  "fast_projectile = \<lparr>priv_speed = huge_speed, priv_height = 0, priv_angle = math_radians 45\<rparr>"

definition tiny_speed :: real where
  "tiny_speed = 1 / 2 ^ 600"

definition slow_projectile :: Projectile where
  "slow_projectile = \<lparr>priv_speed = tiny_speed, priv_height = 1, priv_angle = 0\<rparr>"

definition resting_projectile :: Projectile where
  "resting_projectile = \<lparr>priv_speed = 2, priv_height = 0, priv_angle = 0\<rparr>"

definition buried_projectile :: Projectile where
  "buried_projectile = \<lparr>priv_speed = 2, priv_height = - 1, priv_angle = 0\<rparr>"

definition dropped_projectile :: Projectile where
  "dropped_projectile = \<lparr>priv_speed = 2, priv_height = 1, priv_angle = 0\<rparr>"

definition level_projectile :: Projectile where
  "level_projectile = \<lparr>priv_speed = 2, priv_height = 5, priv_angle = 0\<rparr>"

definition stopped_projectile :: Projectile where
  "stopped_projectile = \<lparr>priv_speed = 0, priv_height = 5, priv_angle = 0\<rparr>"

definition upward_projectile :: Projectile where
  "upward_projectile = init_Projectile 10 0 90"

text \<open>The height \<open>2\<^sup>1\<^sup>0\<^sup>2\<^sup>3\<close> is a double (about \<open>9.0e307\<close>); its product with \<open>2 g\<close> is
  beyond the largest double.\<close>

definition huge_height :: real where
  "huge_height = 2 ^ 1023"

definition high_projectile :: Projectile where
  "high_projectile = \<lparr>priv_speed = 2, priv_height = huge_height, priv_angle = 0\<rparr>"

definition high_stopped_projectile :: Projectile where
  "high_stopped_projectile = \<lparr>priv_speed = 0, priv_height = huge_height, priv_angle = 0\<rparr>"

section \<open>Rounding to a double\<close>

lemma py_round_error: "\<bar>of_int (py_round y) - y\<bar> \<le> 1 / 2"
  unfolding py_round_def Let_def by (auto; linarith)

lemma py_round_near_int:
  assumes "\<bar>y - of_int d\<bar> < 1 / 2"
  shows "py_round y = d"
proof -
  have "\<bar>of_int (py_round y) - y\<bar> \<le> 1 / 2" by (rule py_round_error)
  with assms have "\<bar>real_of_int (py_round y) - of_int d\<bar> < 1" by linarith
  then have "\<bar>real_of_int (py_round y - d)\<bar> < 1" by simp
  then have "\<bar>py_round y - d\<bar> < 1" by linarith
  then show ?thesis by linarith
qed

text \<open>\<open>ilog2 x\<close> is the integer part of the binary logarithm of \<open>x\<close>.\<close>

lemma ilog2_lower:
  assumes "0 < x"
  shows "2 powi (ilog2 x) \<le> x"
proof (cases "1 \<le> x")
  case True
  then have pos: "0 < \<lfloor>x\<rfloor>" by linarith
  have "(2::int) ^ nat (bitlen \<lfloor>x\<rfloor> - 1) \<le> \<lfloor>x\<rfloor>"
    using bitlen_bounds [OF pos] by simp
  then have "real_of_int (2 ^ nat (bitlen \<lfloor>x\<rfloor> - 1)) \<le> of_int \<lfloor>x\<rfloor>"
    by linarith
  also have "\<dots> \<le> x" by simp
  finally have "(2::real) ^ nat (bitlen \<lfloor>x\<rfloor> - 1) \<le> x" by simp
  moreover have "1 \<le> bitlen \<lfloor>x\<rfloor>"
    using pos bitlen_eq_zero_iff [of "\<lfloor>x\<rfloor>"] bitlen_nonneg [of "\<lfloor>x\<rfloor>"] by linarith
  ultimately show ?thesis
    using True by (simp add: ilog2_def power_int_def)
next
  case False
  define n where "n = \<lceil>1 / x\<rceil> - 1"
  from False assms have "1 < 1 / x" by simp
  then have n: "0 < n" unfolding n_def by linarith
  have "n < 2 ^ nat (bitlen n)" using bitlen_bounds [OF n] by simp
  then have "n + 1 \<le> 2 ^ nat (bitlen n)" by linarith
  then have "real_of_int (n + 1) \<le> real_of_int (2 ^ nat (bitlen n))" by linarith
  moreover have "1 / x \<le> real_of_int (n + 1)" unfolding n_def by simp
  ultimately have "1 / x \<le> 2 ^ nat (bitlen n)" by simp
  then have "1 / 2 ^ nat (bitlen n) \<le> x"
    using assms by (simp add: field_simps)
  moreover have "(2::real) powi (- bitlen n) = inverse (2 powi bitlen n)"
    by (rule power_int_minus)
  moreover have "(2::real) powi bitlen n = 2 ^ nat (bitlen n)"
    using bitlen_nonneg [of n] by (simp add: power_int_def)
  ultimately show ?thesis
    using False by (simp add: ilog2_def n_def [symmetric] inverse_eq_divide)
qed

lemma ilog2_upper:
  assumes "0 < x"
  shows "x < 2 powi (ilog2 x + 1)"
proof (cases "1 \<le> x")
  case True
  then have pos: "0 < \<lfloor>x\<rfloor>" by linarith
  have "\<lfloor>x\<rfloor> < 2 ^ nat (bitlen \<lfloor>x\<rfloor>)"
    using bitlen_bounds [OF pos] by simp
  then have "\<lfloor>x\<rfloor> + 1 \<le> 2 ^ nat (bitlen \<lfloor>x\<rfloor>)" by linarith
  then have "real_of_int (\<lfloor>x\<rfloor> + 1) \<le> real_of_int (2 ^ nat (bitlen \<lfloor>x\<rfloor>))" by linarith
  moreover have "x < real_of_int (\<lfloor>x\<rfloor> + 1)" by linarith
  ultimately have "x < real_of_int (2 ^ nat (bitlen \<lfloor>x\<rfloor>))" by linarith
  then have "x < 2 ^ nat (bitlen \<lfloor>x\<rfloor>)" by simp
  moreover have "(2::real) powi bitlen \<lfloor>x\<rfloor> = 2 ^ nat (bitlen \<lfloor>x\<rfloor>)"
    using bitlen_nonneg [of "\<lfloor>x\<rfloor>"] by (simp add: power_int_def)
  ultimately show ?thesis using True by (simp add: ilog2_def)
next
  case False
  define n where "n = \<lceil>1 / x\<rceil> - 1"
  from False assms have "1 < 1 / x" by simp
  then have n: "0 < n" unfolding n_def by linarith
  have b: "1 \<le> bitlen n"
    using n bitlen_eq_zero_iff [of n] bitlen_nonneg [of n] by linarith
  have "2 ^ nat (bitlen n - 1) \<le> n" using bitlen_bounds [OF n] by simp
  then have "real_of_int (2 ^ nat (bitlen n - 1)) \<le> real_of_int n" by linarith
  moreover have "real_of_int n < 1 / x" unfolding n_def by linarith
  ultimately have "real_of_int (2 ^ nat (bitlen n - 1)) < 1 / x" by linarith
  then have "2 ^ nat (bitlen n - 1) < 1 / x" by simp
  then have "x < 1 / 2 ^ nat (bitlen n - 1)"
    using assms by (simp add: field_simps)
  moreover have "(2::real) powi (- (bitlen n - 1)) = inverse (2 powi (bitlen n - 1))"
    by (rule power_int_minus)
  moreover have "(2::real) powi (bitlen n - 1) = 2 ^ nat (bitlen n - 1)"
    using b by (simp add: power_int_def)
  moreover have "- bitlen n + 1 = - (bitlen n - 1)" by simp
  ultimately show ?thesis
    using False by (simp add: ilog2_def n_def [symmetric] inverse_eq_divide)
qed

text \<open>Rounding to a double changes a number by at most half a unit in its last place.\<close>

lemma round_to_double_error: "\<bar>round_to_double x - x\<bar> \<le> \<bar>x\<bar> / 2 ^ 53"
proof (cases "x = 0")
  case True
  then show ?thesis by (simp add: round_to_double_def)
next
  case False
  define e where "e = ilog2 \<bar>x\<bar> - 52"
  define s :: real where "s = 2 powi e"
  have s: "0 < s" by (simp add: s_def)
  have "\<bar>of_int (py_round (x / s)) - x / s\<bar> \<le> 1 / 2" by (rule py_round_error)
  then have "\<bar>of_int (py_round (x / s)) - x / s\<bar> * s \<le> 1 / 2 * s"
    using s by (simp only: mult_le_cancel_right_pos)
  moreover have "\<bar>of_int (py_round (x / s)) - x / s\<bar> * s = \<bar>of_int (py_round (x / s)) * s - x\<bar>"
  proof -
    have "of_int (py_round (x / s)) * s - x = (of_int (py_round (x / s)) - x / s) * s"
      using s by (simp add: left_diff_distrib)
    then show ?thesis using s by (simp only: abs_mult abs_of_pos)
  qed
  ultimately have 1: "\<bar>of_int (py_round (x / s)) * s - x\<bar> \<le> s / 2" by simp
  have "2 powi (ilog2 \<bar>x\<bar>) \<le> \<bar>x\<bar>" using False by (intro ilog2_lower) simp
  moreover have "(2::real) powi (ilog2 \<bar>x\<bar>) = s * 2 ^ 52"
    by (simp add: s_def e_def power_int_diff)
  ultimately have "s / 2 \<le> \<bar>x\<bar> / 2 ^ 53" by simp
  with 1 show ?thesis
    using False by (simp add: round_to_double_def Let_def e_def [symmetric] s_def [symmetric])
qed

lemma round_to_double_eval:
  "x \<noteq> 0 \<Longrightarrow> ilog2 \<bar>x\<bar> = k \<Longrightarrow> py_round (x / 2 powi (k - 52)) = m
    \<Longrightarrow> round_to_double x = of_int m * 2 powi (k - 52)"
  by (simp add: round_to_double_def Let_def)

subsection \<open>The rounding of float arithmetic\<close>

lemma powi2_less_cancel: "(2::real) powi a < 2 powi b \<Longrightarrow> a < b"
  using power_int_increasing [of b a "2::real"] by (cases "a < b") auto

lemma powi2_le_cancel: "(2::real) powi a \<le> 2 powi b \<Longrightarrow> a \<le> b"
  using power_int_strict_increasing [of b a "2::real"] by (cases "a \<le> b") auto

lemma ilog2_unique:
  assumes "0 < x" and "2 powi k \<le> x" and "x < 2 powi (k + 1)"
  shows "ilog2 x = k"
proof -
  have "(2::real) powi ilog2 x < 2 powi (k + 1)"
    using ilog2_lower [OF assms(1)] assms(3) by linarith
  then have "ilog2 x < k + 1" by (rule powi2_less_cancel)
  moreover have "(2::real) powi k < 2 powi (ilog2 x + 1)"
    using ilog2_upper [OF assms(1)] assms(2) by linarith
  then have "k < ilog2 x + 1" by (rule powi2_less_cancel)
  ultimately show ?thesis by linarith
qed

lemma ilog2_ge:
  assumes "0 < x" and "2 powi k \<le> x"
  shows "k \<le> ilog2 x"
proof -
  have "(2::real) powi k < 2 powi (ilog2 x + 1)"
    using ilog2_upper [OF assms(1)] assms(2) by linarith
  then have "k < ilog2 x + 1" by (rule powi2_less_cancel)
  then show ?thesis by linarith
qed

lemma ilog2_le:
  assumes "0 < x" and "x \<le> 2 powi k"
  shows "ilog2 x \<le> k"
proof -
  have "(2::real) powi ilog2 x \<le> 2 powi k"
    using ilog2_lower [OF assms(1)] assms(2) by linarith
  then show ?thesis by (rule powi2_le_cancel)
qed

lemma py_round_ge_int: "of_int n \<le> y \<Longrightarrow> n \<le> py_round y"
  unfolding py_round_def Let_def by (auto; linarith)

lemma py_round_le_int: "y \<le> of_int n \<Longrightarrow> py_round y \<le> n"
  unfolding py_round_def Let_def by (auto; linarith)

lemma py_round_of_int [simp]: "py_round (of_int n) = n"
  unfolding py_round_def Let_def by simp

lemma fl_rounded:
  "fl x = (if x = 0 then Fin 0 else if 2 powi 1024 \<le> \<bar>rounded x\<bar>
     then (if 0 < x then PInf else NInf) else Fin (rounded x))"
  by (simp add: fl_def)

text \<open>Rounding does not cross a power of two that is a multiple of the quantum.\<close>

lemma rounded_ge_pow2:
  assumes "0 < x" and "2 powi k \<le> x" and "- 1074 \<le> k"
  shows "2 powi k \<le> rounded x"
proof -
  define e where "e = quantum x"
  have ax: "\<bar>x\<bar> = x" using assms(1) by simp
  have s: "(0::real) < 2 powi e" by simp
  show ?thesis
  proof (cases "e \<le> k")
    case True
    have "(2::real) powi k = 2 powi (k - e) * 2 powi e"
      by (simp add: power_int_diff)
    also have "(2::real) powi (k - e) = of_int (2 ^ nat (k - e))"
      using True by (simp add: power_int_def)
    finally have pk: "(2::real) powi k = of_int (2 ^ nat (k - e)) * 2 powi e" .
    have "of_int (2 ^ nat (k - e)) \<le> x / 2 powi e"
      using assms(2) s unfolding pk by (simp add: field_simps)
    then have "2 ^ nat (k - e) \<le> py_round (x / 2 powi e)" by (rule py_round_ge_int)
    then have "real_of_int (2 ^ nat (k - e)) \<le> of_int (py_round (x / 2 powi e))"
      by linarith
    then have "real_of_int (2 ^ nat (k - e)) * 2 powi e \<le> of_int (py_round (x / 2 powi e)) * 2 powi e"
      using s by (simp only: mult_le_cancel_right_pos)
    then show ?thesis unfolding pk rounded_def e_def .
  next
    case False
    then have e: "e = ilog2 x - 52" using assms(3) by (auto simp: e_def quantum_def ax max_def)
    have "2 powi (ilog2 x) \<le> x" using assms(1) by (rule ilog2_lower)
    moreover have "(2::real) powi (ilog2 x) = of_int (2 ^ 52) * 2 powi e"
      by (simp add: e power_int_diff)
    ultimately have "of_int (2 ^ 52) \<le> x / 2 powi e"
      using s by (simp add: field_simps)
    then have "2 ^ 52 \<le> py_round (x / 2 powi e)" by (rule py_round_ge_int)
    then have "real_of_int (2 ^ 52) \<le> of_int (py_round (x / 2 powi e))" by linarith
    then have "real_of_int (2 ^ 52) * 2 powi e \<le> of_int (py_round (x / 2 powi e)) * 2 powi e"
      using s by (simp only: mult_le_cancel_right_pos)
    moreover have "(2::real) powi k \<le> 2 powi e"
      using False by (intro power_int_increasing) auto
    moreover have "(2::real) powi e \<le> real_of_int (2 ^ 52) * 2 powi e" by simp
    ultimately show ?thesis unfolding rounded_def e_def by linarith
  qed
qed

lemma rounded_le_pow2:
  assumes "0 < x" and "x \<le> 2 powi k" and "- 1074 \<le> k"
  shows "rounded x \<le> 2 powi k"
proof -
  define e where "e = quantum x"
  have ax: "\<bar>x\<bar> = x" using assms(1) by simp
  have s: "(0::real) < 2 powi e" by simp
  have "ilog2 x \<le> k" using assms(1,2) by (rule ilog2_le)
  then have ek: "e \<le> k" using assms(3) by (simp add: e_def quantum_def ax)
  have "(2::real) powi k = 2 powi (k - e) * 2 powi e"
    by (simp add: power_int_diff)
  also have "(2::real) powi (k - e) = of_int (2 ^ nat (k - e))"
    using ek by (simp add: power_int_def)
  finally have pk: "(2::real) powi k = of_int (2 ^ nat (k - e)) * 2 powi e" .
  have "x / 2 powi e \<le> of_int (2 ^ nat (k - e))"
    using assms(2) s unfolding pk by (simp add: field_simps)
  then have "py_round (x / 2 powi e) \<le> 2 ^ nat (k - e)" by (rule py_round_le_int)
  then have "real_of_int (py_round (x / 2 powi e)) \<le> of_int (2 ^ nat (k - e))"
    by linarith
  then have "of_int (py_round (x / 2 powi e)) * 2 powi e \<le> real_of_int (2 ^ nat (k - e)) * 2 powi e"
    using s by (simp only: mult_le_cancel_right_pos)
  then show ?thesis unfolding pk rounded_def e_def .
qed

lemma rounded_nonneg: "0 \<le> x \<Longrightarrow> 0 \<le> rounded x"
proof -
  assume "0 \<le> x"
  then have "of_int 0 \<le> x / 2 powi quantum x" by simp
  then have "0 \<le> py_round (x / 2 powi quantum x)" by (rule py_round_ge_int)
  then show ?thesis by (simp add: rounded_def)
qed

text \<open>The results of \<open>fl\<close> on a positive number between two powers of two.\<close>

lemma fl_between:
  assumes "2 powi k \<le> x" and "x \<le> 2 powi n" and "- 1074 \<le> k" and "n \<le> 1023"
  shows "\<exists>r. fl x = Fin r \<and> 2 powi k \<le> r \<and> r \<le> 2 powi n"
proof -
  have x: "0 < x" using assms(1) zero_less_power_int [of "2::real" k] by linarith
  have "(2::real) powi k \<le> 2 powi n" using assms(1,2) by linarith
  then have "k \<le> n" by (rule powi2_le_cancel)
  then have n: "- 1074 \<le> n" using assms(3) by linarith
  have lo: "2 powi k \<le> rounded x" using x assms(1,3) by (rule rounded_ge_pow2)
  have hi: "rounded x \<le> 2 powi n" using x assms(2) n by (rule rounded_le_pow2)
  have "(2::real) powi n < 2 powi 1024"
    using assms(4) by (intro power_int_strict_increasing) auto
  with hi lo have "\<bar>rounded x\<bar> < 2 powi 1024"
    using zero_less_power_int [of "2::real" k] by linarith
  then show ?thesis using x lo hi by (auto simp: fl_rounded)
qed

lemma fl_overflow:
  assumes "2 powi 1024 \<le> x"
  shows "fl x = PInf"
proof -
  have x: "0 < x" using assms zero_less_power_int [of "2::real" 1024] by linarith
  have "2 powi 1024 \<le> rounded x" using x assms by (rule rounded_ge_pow2) simp
  then have "2 powi 1024 \<le> \<bar>rounded x\<bar>" by linarith
  then show ?thesis using x by (simp add: fl_rounded)
qed

lemma fl_underflow:
  assumes "0 \<le> x" and "x < 2 powi (- 1075)"
  shows "fl x = Fin 0"
proof (cases "x = 0")
  case True
  then show ?thesis by (simp add: fl_def)
next
  case False
  then have x: "0 < x" using assms(1) by simp
  have "ilog2 x \<le> - 1075"
    using x assms(2) by (intro ilog2_le) simp_all
  then have q: "quantum x = - 1074" using x by (simp add: quantum_def)
  have "(2::real) powi (- 1075) = 2 powi (- 1074) / 2"
    by (simp add: power_int_minus field_simps)
  then have "x / 2 powi (- 1074) < 1 / 2"
    using assms(2) by (simp add: field_simps)
  moreover have "0 \<le> x / 2 powi (- 1074)" using x by simp
  ultimately have "\<bar>x / 2 powi (- 1074) - of_int 0\<bar> < 1 / 2" by simp
  then have "py_round (x / 2 powi (- 1074)) = 0" by (rule py_round_near_int)
  then have "rounded x = 0" by (simp add: rounded_def q)
  then show ?thesis using x by (simp add: fl_rounded)
qed

lemma py_round_0 [simp]: "py_round 0 = 0"
  by (simp add: py_round_def)

text \<open>A double is a fixed point of the rounding.\<close>

lemma rounded_exact:
  assumes "x = of_int m * 2 powi e" and "\<bar>m\<bar> < 2 ^ 53" and "- 1074 \<le> e"
  shows "rounded x = x"
proof (cases "m = 0")
  case True
  then show ?thesis using assms(1) by (simp add: rounded_def)
next
  case False
  define q where "q = quantum x"
  have ax: "\<bar>x\<bar> = of_int \<bar>m\<bar> * 2 powi e"
    using assms(1) by (simp add: abs_mult)
  have pos: "0 < \<bar>x\<bar>" using False assms(1) by simp
  have "real_of_int \<bar>m\<bar> < of_int (2 ^ 53)" using assms(2) by linarith
  then have "\<bar>x\<bar> < of_int (2 ^ 53) * 2 powi e"
    unfolding ax by (simp only: mult_less_cancel_right_pos zero_less_power_int zero_less_numeral)
  also have "\<dots> = 2 powi (e + 53)" by (simp add: power_int_add)
  finally have "\<bar>x\<bar> < 2 powi (e + 53)" .
  moreover have "2 powi ilog2 \<bar>x\<bar> \<le> \<bar>x\<bar>" using pos by (rule ilog2_lower)
  ultimately have "(2::real) powi ilog2 \<bar>x\<bar> < 2 powi (e + 53)" by linarith
  then have "ilog2 \<bar>x\<bar> < e + 53" by (rule powi2_less_cancel)
  then have qe: "q \<le> e" using assms(3) by (simp add: q_def quantum_def)
  have "(2::real) powi e = 2 powi (e - q) * 2 powi q" by (simp add: power_int_diff)
  also have "(2::real) powi (e - q) = of_int (2 ^ nat (e - q))"
    using qe by (simp add: power_int_def)
  finally have "x / 2 powi q = of_int (m * 2 ^ nat (e - q))"
    using assms(1) by simp
  then have "py_round (x / 2 powi q) = m * 2 ^ nat (e - q)" by (simp only: py_round_of_int)
  then have "rounded x = of_int (m * 2 ^ nat (e - q)) * 2 powi q"
    by (simp add: rounded_def q_def)
  also have "\<dots> = x / 2 powi q * 2 powi q"
    using \<open>x / 2 powi q = of_int (m * 2 ^ nat (e - q))\<close> by simp
  finally show ?thesis by simp
qed

lemma fl_exact:
  assumes "x = of_int m * 2 powi e" and "\<bar>m\<bar> < 2 ^ 53" and "- 1074 \<le> e"
    and "\<bar>x\<bar> < 2 powi 1024"
  shows "fl x = Fin x"
  using rounded_exact [OF assms(1-3)] assms(4) by (simp add: fl_def)

lemma fl_0 [simp]: "fl 0 = Fin 0"
  by (simp add: fl_def)

lemma fl_small_int:
  assumes "\<bar>n\<bar> < 2 ^ 53"
  shows "fl (of_int n) = Fin (of_int n)"
proof (rule fl_exact [where m = n and e = 0])
  show "real_of_int n = of_int n * 2 powi 0" by simp
  show "\<bar>n\<bar> < 2 ^ 53" by (rule assms)
  show "- 1074 \<le> (0::int)" by simp
  have "\<bar>real_of_int n\<bar> < 2 ^ 53"
    using assms by (metis of_int_abs of_int_less_iff of_int_numeral of_int_power)
  also have "(2::real) ^ 53 < 2 powi 1024" by (simp add: power_int_def)
  finally show "\<bar>real_of_int n\<bar> < 2 powi 1024" .
qed

lemma py_round_neg: "py_round (- y) = - py_round y"
proof (cases "y = of_int \<lfloor>y\<rfloor>")
  case True
  then obtain n where "y = of_int n" ..
  then show ?thesis by (simp flip: of_int_minus)
next
  case False
  then have c: "\<lceil>y\<rceil> = \<lfloor>y\<rfloor> + 1"
    by (metis ceiling_altdef)
  have f: "\<lfloor>- y\<rfloor> = - \<lfloor>y\<rfloor> - 1"
    using c by (simp add: floor_minus)
  show ?thesis
    unfolding py_round_def Let_def f by (auto; linarith)
qed

lemma quantum_neg: "quantum (- x) = quantum x"
  by (simp add: quantum_def)

lemma rounded_neg: "rounded (- x) = - rounded x"
  by (simp add: rounded_def quantum_neg py_round_neg)

lemma fl_neg: "fl (- x) = fneg (fl x)"
  by (simp add: fl_def rounded_neg)

text \<open>A number of magnitude at most one rounds to a double of magnitude at most one.\<close>

lemma fl_abs_le_one:
  assumes "\<bar>x\<bar> \<le> 1"
  shows "\<exists>r. fl x = Fin r \<and> \<bar>r\<bar> \<le> 1"
proof -
  have pos: "\<exists>r. fl y = Fin r \<and> 0 \<le> r \<and> r \<le> 1" if "0 < y" "y \<le> 1" for y
  proof -
    have "rounded y \<le> 2 powi 0" using that by (intro rounded_le_pow2) simp_all
    moreover have "0 \<le> rounded y" using that by (intro rounded_nonneg) simp
    moreover have "(1::real) < 2 powi 1024" by (simp add: power_int_def)
    ultimately show ?thesis using that by (simp add: fl_def)
  qed
  consider "x = 0" | "0 < x" | "x < 0" by linarith
  then show ?thesis
  proof cases
    case 1
    then show ?thesis by simp
  next
    case 2
    with pos [of x] assms show ?thesis by auto
  next
    case 3
    with pos [of "- x"] assms obtain r where r: "fl (- x) = Fin r" "0 \<le> r" "r \<le> 1" by auto
    have "fl x = fneg (fl (- x))" using fl_neg [of "- x"] by simp
    with r show ?thesis by simp
  qed
qed

lemma fsquare_le_one:
  assumes "\<bar>x\<bar> \<le> 1"
  shows "\<exists>c. fsquare (fl x) = Fin c \<and> 0 \<le> c"
proof -
  from fl_abs_le_one [OF assms] obtain r where r: "fl x = Fin r" "\<bar>r\<bar> \<le> 1" by auto
  have "r * r \<le> 1" using r(2) abs_square_le_1 [of r] by (simp add: power2_eq_square)
  then have "\<bar>r * r\<bar> \<le> 1" by simp
  from fl_abs_le_one [OF this] obtain c where c: "fl (r * r) = Fin c" by auto
  have "0 \<le> rounded (r * r)" by (intro rounded_nonneg) simp
  with c have "0 \<le> c" by (auto simp: fl_def split: if_splits)
  with r c show ?thesis by simp
qed

lemma fmul_commute: "fmul a b = fmul b a"
  by (cases a; cases b) (simp_all add: mult.commute)

lemma fmul_zero_fin [simp]: "fmul (Fin 0) (Fin b) = Fin 0" "fmul (Fin a) (Fin 0) = Fin 0"
  by simp_all

text \<open>The double nearest to a number between two consecutive powers of two, from its
  significand.\<close>

lemma fl_eval:
  assumes "2 powi k \<le> \<bar>x\<bar>" and "\<bar>x\<bar> < 2 powi (k + 1)" and "- 1022 \<le> k"
    and "py_round (x / 2 powi (k - 52)) = m"
    and "\<bar>real_of_int m * 2 powi (k - 52)\<bar> < 2 powi 1024"
  shows "fl x = Fin (of_int m * 2 powi (k - 52))"
proof -
  have pos: "0 < \<bar>x\<bar>" using assms(1) zero_less_power_int [of "2::real" k] by linarith
  have "ilog2 \<bar>x\<bar> = k" using pos assms(1,2) by (rule ilog2_unique)
  then have "quantum x = k - 52" using assms(3) by (simp add: quantum_def)
  then have "rounded x = of_int m * 2 powi (k - 52)" by (simp add: rounded_def assms(4))
  then show ?thesis using pos assms(5) by (simp add: fl_def)
qed

text \<open>Scaling by a power of two is exact while the result stays a normal double.\<close>

lemma fl_scale:
  assumes "fl x = Fin r" and "2 powi k \<le> \<bar>x\<bar>" and "- 1022 \<le> k" and "- 1022 \<le> k + n"
    and "\<bar>r * 2 powi n\<bar> < 2 powi 1024"
  shows "fl (x * 2 powi n) = Fin (r * 2 powi n)"
proof -
  have pos: "0 < \<bar>x\<bar>" using assms(2) zero_less_power_int [of "2::real" k] by linarith
  then have x: "x \<noteq> 0" by simp
  define j where "j = ilog2 \<bar>x\<bar>"
  have j: "2 powi j \<le> \<bar>x\<bar>" "\<bar>x\<bar> < 2 powi (j + 1)"
    unfolding j_def using ilog2_lower [OF pos] ilog2_upper [OF pos] by simp_all
  have kj: "k \<le> j" unfolding j_def using pos assms(2) by (rule ilog2_ge)
  have s: "(0::real) < 2 powi n" by simp
  have ax: "\<bar>x * 2 powi n\<bar> = \<bar>x\<bar> * 2 powi n" by (simp add: abs_mult)
  have "2 powi j * 2 powi n \<le> \<bar>x\<bar> * 2 powi n" using j(1) s by (simp only: mult_le_cancel_right_pos)
  then have lo: "2 powi (j + n) \<le> \<bar>x * 2 powi n\<bar>" by (simp add: ax power_int_add)
  have "\<bar>x\<bar> * 2 powi n < 2 powi (j + 1) * 2 powi n"
    using j(2) s by (simp only: mult_less_cancel_right_pos)
  then have hi: "\<bar>x * 2 powi n\<bar> < 2 powi (j + n + 1)"
    by (simp add: ax power_int_add)
  have pos': "0 < \<bar>x * 2 powi n\<bar>" using pos by (simp add: abs_mult)
  have "ilog2 \<bar>x * 2 powi n\<bar> = j + n" using pos' lo hi by (rule ilog2_unique)
  then have q': "quantum (x * 2 powi n) = j + n - 52"
    using kj assms(4) by (simp add: quantum_def)
  have q: "quantum x = j - 52" using kj assms(3) by (simp add: quantum_def j_def)
  have "x * 2 powi n / 2 powi (j + n - 52) = x / 2 powi (j - 52)"
  proof -
    have "(2::real) powi (j + n - 52) = 2 powi (j - 52) * 2 powi n"
      using power_int_add [of "2::real" "j - 52" n] by (simp add: algebra_simps)
    then show ?thesis by simp
  qed
  moreover have "(2::real) powi (j + n - 52) = 2 powi (j - 52) * 2 powi n"
    using power_int_add [of "2::real" "j - 52" n] by (simp add: algebra_simps)
  ultimately have r': "rounded (x * 2 powi n) = rounded x * 2 powi n"
    by (simp add: rounded_def q q')
  have "rounded x = r" using assms(1) x by (simp add: fl_def split: if_splits)
  with r' have "rounded (x * 2 powi n) = r * 2 powi n" by simp
  then show ?thesis using x assms(5) by (simp add: fl_def)
qed

subsection \<open>Some doubles\<close>

lemma fl_1: "fl 1 = Fin 1"
  using fl_small_int [of 1] by simp

lemma fl_2: "fl 2 = Fin 2"
  using fl_small_int [of 2] by simp

lemma fl_4: "fl 4 = Fin 4"
  using fl_small_int [of 4] by simp

lemma fl_5: "fl 5 = Fin 5"
  using fl_small_int [of 5] by simp

lemma fl_8: "fl 8 = Fin 8"
  using fl_small_int [of 8] by simp

lemma fl_100: "fl 100 = Fin 100"
  using fl_small_int [of 100] by simp

lemma fl_200: "fl 200 = Fin 200"
  using fl_small_int [of 200] by simp

lemma fl_g: "fl (5522539043063071 / 2 ^ 49) = Fin (5522539043063071 / 2 ^ 49)"
  by (rule fl_exact [where m = 5522539043063071 and e = "- 49"])
    (simp_all add: power_int_def power_one_over)

lemma fl_g_8: "fl (5522539043063071 / 2 ^ 49 / 8) = Fin (5522539043063071 / 2 ^ 52)"
proof -
  have "fl (5522539043063071 / 2 ^ 52) = Fin (5522539043063071 / 2 ^ 52)"
    by (rule fl_exact [where m = 5522539043063071 and e = "- 52"])
      (simp_all add: power_int_def power_one_over)
  then show ?thesis by simp
qed

lemma fl_2g: "fl (2 * (5522539043063071 / 2 ^ 49)) = Fin (5522539043063071 / 2 ^ 48)"
proof -
  have "fl (5522539043063071 / 2 ^ 48) = Fin (5522539043063071 / 2 ^ 48)"
    by (rule fl_exact [where m = 5522539043063071 and e = "- 48"])
      (simp_all add: power_int_def power_one_over)
  then show ?thesis by simp
qed

text \<open>The square root of \<open>2 * 9.81\<close> in doubles is \<open>0x1.1b7c0eed1ea38p+2\<close>.\<close>

lemma fl_sqrt_2g: "fl (sqrt (5522539043063071 / 2 ^ 48)) = Fin (623389234052423 / 2 ^ 47)"
proof -
  define c :: real where "c = 5522539043063071 / 2 ^ 48"
  have lo: "(4987113872419384 - 1 / 2) / 2 ^ 50 < sqrt c"
    by (rule real_less_rsqrt) (simp add: c_def power2_eq_square)
  have hi: "sqrt c < (4987113872419384 + 1 / 2) / 2 ^ 50"
    by (rule real_less_lsqrt) (simp_all add: c_def power2_eq_square)
  have "fl (sqrt c) = Fin (of_int 4987113872419384 * 2 powi (2 - 52))"
  proof (rule fl_eval)
    show "2 powi 2 \<le> \<bar>sqrt c\<bar>" using lo by simp
    show "\<bar>sqrt c\<bar> < 2 powi (2 + 1)" using hi lo by simp
    show "- 1022 \<le> (2::int)" by simp
    have q: "sqrt c / 2 powi (2 - 52) = sqrt c * 2 ^ 50"
      by (simp add: power_int_def power_one_over)
    define t where "t = sqrt c * 2 ^ 50 - 4987113872419384"
    have "t < 1 / 2" and "- (1 / 2) < t"
      using lo hi by (simp_all add: t_def field_simps)
    then have "\<bar>t\<bar> < 1 / 2" by linarith
    then have "\<bar>sqrt c / 2 powi (2 - 52) - of_int 4987113872419384\<bar> < 1 / 2"
      unfolding q t_def by (simp only: of_int_numeral)
    then show "py_round (sqrt c / 2 powi (2 - 52)) = 4987113872419384"
      by (rule py_round_near_int)
    have "\<bar>real_of_int 4987113872419384 * 2 powi (2 - 52)\<bar> \<le> 8"
      by (simp add: power_int_def power_one_over)
    also have "(8::real) < 2 powi 1024" by (simp add: power_int_def)
    finally show "\<bar>real_of_int 4987113872419384 * 2 powi (2 - 52)\<bar> < 2 powi 1024" .
  qed
  then show ?thesis by (simp add: c_def power_int_def power_one_over)
qed

lemma fl_root: "fl (623389234052423 / 2 ^ 47) = Fin (623389234052423 / 2 ^ 47)"
  by (rule fl_exact [where m = 623389234052423 and e = "- 47"])
    (simp_all add: power_int_def power_one_over)

lemma fl_2_root: "fl (2 * (623389234052423 / 2 ^ 47)) = Fin (623389234052423 / 2 ^ 46)"
proof -
  have "fl (623389234052423 / 2 ^ 46) = Fin (623389234052423 / 2 ^ 46)"
    by (rule fl_exact [where m = 623389234052423 and e = "- 46"])
      (simp_all add: power_int_def power_one_over)
  then show ?thesis by simp
qed

section \<open>The two computations of class Projectile\<close>

text \<open>Each computation either raises or returns the formula of the specification in
  double arithmetic; the lemmas say when.\<close>

lemma G_not_zero: "GRAVITATIONAL_ACCELERATION \<noteq> Fin 0"
  by (simp add: GRAVITATIONAL_ACCELERATION_def)

lemma G_bounds:
  "\<exists>g. GRAVITATIONAL_ACCELERATION = Fin g \<and> 2 powi 3 \<le> g \<and> g \<le> 2 powi 4"
  by (rule exI [of _ "5522539043063071 / 2 ^ 49"]) (simp add: GRAVITATIONAL_ACCELERATION_def)

lemma two_g_finite: "\<exists>a. fmul (Fin 2) GRAVITATIONAL_ACCELERATION = Fin a \<and> 2 powi 4 \<le> a \<and> a \<le> 2 powi 5"
proof -
  obtain g where g: "GRAVITATIONAL_ACCELERATION = Fin g" "2 powi 3 \<le> g" "g \<le> 2 powi 4"
    using G_bounds by auto
  have "2 powi 4 \<le> 2 * g" "2 * g \<le> 2 powi 5" using g(2,3) by simp_all
  then show ?thesis using fl_between [of 4 "2 * g" 5] by (simp add: g(1))
qed

lemma float_of_int_cases:
  "float_of_int n = (if is_fin (fl (of_int n)) then Inr (fl (of_int n)) else Inl OverflowError)"
  by (simp add: float_of_int_def is_fin_def split: pyfloat.splits)

lemma cos_square_no_overflow: "\<not> pow2_overflows (math_cos \<theta>)"
proof -
  have "\<bar>cos \<theta>\<bar> \<le> 1" by simp
  from fsquare_le_one [OF this] obtain c where "fsquare (fl (cos \<theta>)) = Fin c" by auto
  then show ?thesis by (simp add: pow2_overflows_def math_cos_def is_fin_def)
qed

lemma displacement_cases:
  "calculate_displacement self =
     (if pow2_overflows (vertical self) then Inl OverflowError
      else if is_negative (discriminant_fl self) then Inl ValueError
      else Inr (spec_displacement self))"
  by (simp add: calculate_displacement_def fpow2_def math_sqrt_def fdiv_def G_not_zero
      vertical_def discriminant_fl_def spec_displacement_def Let_def)

text \<open>An \<open>int\<close> whose square converts to a float converts itself.\<close>

lemma fl_int_square_fin:
  assumes "is_fin (fl (of_int (x\<^sup>2)))"
  shows "is_fin (fl (of_int x))"
proof (cases "x = 0")
  case True
  then show ?thesis by (simp add: is_fin_def)
next
  case False
  define a :: real where "a = of_int \<bar>x\<bar>"
  have a1: "1 \<le> a" using False by (simp add: a_def)
  have sq: "real_of_int (x\<^sup>2) = a * a" by (simp add: a_def power2_eq_square abs_mult_self_eq flip: of_int_mult)
  have "a * a < 2 powi 1024"
  proof (rule ccontr)
    assume "\<not> a * a < 2 powi 1024"
    then have "2 powi 1024 \<le> real_of_int (x\<^sup>2)" by (simp only: sq not_less)
    then have "fl (of_int (x\<^sup>2)) = PInf" by (rule fl_overflow)
    with assms show False by (simp add: is_fin_def)
  qed
  moreover have "(2::real) powi 1024 = 2 powi 512 * 2 powi 512" by (simp flip: power_int_add)
  ultimately have "a * a < 2 powi 512 * 2 powi 512" by simp
  have "a < 2 powi 512"
  proof (rule ccontr)
    assume "\<not> a < 2 powi 512"
    then have le: "2 powi 512 \<le> a" by simp
    have "2 powi 512 * 2 powi 512 \<le> a * a"
      using le by (intro mult_mono) simp_all
    with \<open>a * a < 2 powi 512 * 2 powi 512\<close> show False by linarith
  qed
  then have "\<exists>r. fl a = Fin r \<and> 2 powi 0 \<le> r \<and> r \<le> 2 powi 512"
    using a1 by (intro fl_between) simp_all
  then obtain r where r: "fl a = Fin r" by auto
  show ?thesis
  proof (cases "0 \<le> x")
    case True
    then have "real_of_int x = a" by (simp add: a_def)
    with r show ?thesis by (simp add: is_fin_def)
  next
    case False
    then have "real_of_int x = - a" by (simp add: a_def)
    with r show ?thesis by (simp add: is_fin_def fl_neg)
  qed
qed

lemma y_coordinate_cases:
  "calculate_y_coordinate self x =
     (if \<not> is_fin (fl (of_int (x\<^sup>2))) \<or> pow2_overflows (Fin (priv_speed self))
      then Inl OverflowError
      else if denominator self = Fin 0 then Inl ZeroDivisionError
      else Inr (spec_y self x))"
proof (cases "is_fin (fl (of_int (x\<^sup>2)))")
  case False
  then show ?thesis
    by (simp add: calculate_y_coordinate_def float_of_int_cases Let_def)
next
  case True
  then have "is_fin (fl (of_int x))" by (rule fl_int_square_fin)
  with True show ?thesis
    by (simp add: calculate_y_coordinate_def float_of_int_cases cos_square_no_overflow fpow2_def
        fdiv_def denominator_def spec_y_def Let_def fmul_commute [of "math_tan (priv_angle self)"])
qed

subsection \<open>A speed whose square overflows\<close>

lemma radians_45_bounds: "7 / 10 \<le> math_radians 45" "math_radians 45 \<le> 8 / 10"
proof -
  define c :: real where "c = 45 * degToRad"
  have c: "78 / 100 \<le> c" "c \<le> 79 / 100" by (simp_all add: c_def degToRad_def)
  have "\<bar>math_radians 45 - c\<bar> \<le> \<bar>c\<bar> / 2 ^ 53"
    unfolding math_radians_def c_def by (rule round_to_double_error)
  moreover have "\<bar>c\<bar> / 2 ^ 53 \<le> 1 / 100" using c by simp
  ultimately have "\<bar>math_radians 45 - c\<bar> \<le> 1 / 100" by linarith
  with c show "7 / 10 \<le> math_radians 45" "math_radians 45 \<le> 8 / 10" by linarith+
qed

lemma sin_radians_45: "1 / 2 \<le> sin (math_radians 45)"
proof -
  have "pi / 6 \<le> math_radians 45"
    using radians_45_bounds(1) pi_less_4 by linarith
  moreover have "math_radians 45 \<le> pi / 2"
    using radians_45_bounds(2) pi_ge_two by linarith
  moreover have "- (pi / 2) \<le> pi / 6" using pi_ge_zero by linarith
  ultimately have "sin (pi / 6) \<le> sin (math_radians 45)"
    by (intro sin_monotone_2pi_le)
  then show ?thesis by (simp add: sin_30)
qed

lemma fast_projectile_overflows: "pow2_overflows (vertical fast_projectile)"
proof -
  have "2 powi (- 1) \<le> sin (math_radians 45)"
    using sin_radians_45 by (simp add: power_int_minus)
  moreover have "sin (math_radians 45) \<le> 2 powi 0" by simp
  ultimately obtain s where s: "math_sin (math_radians 45) = Fin s" "2 powi (- 1) \<le> s" "s \<le> 2 powi 0"
    unfolding math_sin_def using fl_between [of "- 1" "sin (math_radians 45)" 0] by auto
  have p: "huge_speed = 2 powi 600" by (simp add: huge_speed_def power_int_def)
  have "2 powi 600 * 2 powi (- 1) \<le> 2 powi 600 * s"
    using s(2) by (simp only: mult_le_cancel_left_pos zero_less_power_int zero_less_numeral)
  then have lo: "2 powi 599 \<le> 2 powi 600 * s" by (simp flip: power_int_add)
  have "2 powi 600 * s \<le> 2 powi 600 * 2 powi 0"
    using s(3) by (simp only: mult_le_cancel_left_pos zero_less_power_int zero_less_numeral)
  then have hi: "2 powi 600 * s \<le> 2 powi 600" by simp
  obtain r where r: "fl (2 powi 600 * s) = Fin r" "2 powi 599 \<le> r"
    using fl_between [OF lo hi] by auto
  have v: "vertical fast_projectile = Fin r"
    by (simp only: vertical_def fast_projectile_def Projectile.select_convs s(1) fmul.simps p r(1))
  have "2 powi 599 * 2 powi 599 \<le> r * r"
    using r(2) by (intro mult_mono) simp_all
  moreover have "(2::real) powi 1024 \<le> 2 powi 599 * 2 powi 599"
    by (simp flip: power_int_add add: power_int_increasing)
  ultimately have "2 powi 1024 \<le> r * r" by linarith
  then have "fl (r * r) = PInf" by (rule fl_overflow)
  then show ?thesis by (simp add: v pow2_overflows_def is_fin_def)
qed

lemma fast_projectile_discriminant: "0 \<le> discriminant huge_speed 0 (math_radians 45)"
  by (simp add: discriminant_def)

subsection \<open>Projectiles at angle 0\<close>

lemma resting_projectile_facts:
  "vertical resting_projectile = Fin 0"
  "discriminant_fl resting_projectile = Fin 0"
  "spec_displacement resting_projectile = Fin 0"
proof -
  obtain a where a: "fmul (Fin 2) GRAVITATIONAL_ACCELERATION = Fin a" using two_g_finite by auto
  obtain g where g: "GRAVITATIONAL_ACCELERATION = Fin g" using G_bounds by auto
  show v: "vertical resting_projectile = Fin 0"
    by (simp add: vertical_def resting_projectile_def math_sin_def)
  show D: "discriminant_fl resting_projectile = Fin 0"
    by (simp add: discriminant_fl_def v a) (simp add: resting_projectile_def)
  show "spec_displacement resting_projectile = Fin 0"
    by (simp add: spec_displacement_def v D) (simp add: resting_projectile_def math_cos_def fl_1 fl_2 g)
qed

lemma buried_projectile_facts:
  "vertical buried_projectile = Fin 0"
  "is_negative (discriminant_fl buried_projectile)"
proof -
  obtain a where a: "fmul (Fin 2) GRAVITATIONAL_ACCELERATION = Fin a" "2 powi 4 \<le> a" "a \<le> 2 powi 5"
    using two_g_finite by auto
  obtain b where b: "fl a = Fin b" "2 powi 4 \<le> b" "b \<le> 2 powi 5"
    using fl_between [OF a(2,3)] by auto
  obtain c where c: "fl b = Fin c" "2 powi 4 \<le> c"
    using fl_between [OF b(2,3)] by auto
  show v: "vertical buried_projectile = Fin 0"
    by (simp add: vertical_def buried_projectile_def math_sin_def)
  have "fl (- a) = Fin (- b)" by (simp add: fl_neg b(1))
  moreover have "fl (- b) = Fin (- c)" by (simp add: fl_neg c(1))
  ultimately have "discriminant_fl buried_projectile = Fin (- c)"
    by (simp add: discriminant_fl_def v a(1)) (simp add: buried_projectile_def)
  moreover have "0 < c" using c(2) zero_less_power_int [of "2::real" 4] by linarith
  ultimately show "is_negative (discriminant_fl buried_projectile)"
    by (simp add: is_negative_def)
qed

lemma fl_dropped_range:
  "fl (623389234052423 / 2 ^ 46 / (5522539043063071 / 2 ^ 49)) = Fin (8133926805169229 / 2 ^ 53)"
proof -
  define q :: real where "q = 623389234052423 / 2 ^ 46 / (5522539043063071 / 2 ^ 49)"
  have "fl q = Fin (of_int 8133926805169229 * 2 powi (- 1 - 52))"
  proof (rule fl_eval)
    show "2 powi (- 1) \<le> \<bar>q\<bar>" by (simp add: q_def power_int_def)
    show "\<bar>q\<bar> < 2 powi (- 1 + 1)" by (simp add: q_def)
    show "- 1022 \<le> (- 1::int)" by simp
    show "py_round (q / 2 powi (- 1 - 52)) = 8133926805169229"
      by (simp add: q_def py_round_def power_int_def power_one_over Let_def)
    have "\<bar>real_of_int 8133926805169229 * 2 powi (- 1 - 52)\<bar> \<le> 1"
      by (simp add: power_int_def power_one_over)
    also have "(1::real) < 2 powi 1024" by (simp add: power_int_def)
    finally show "\<bar>real_of_int 8133926805169229 * 2 powi (- 1 - 52)\<bar> < 2 powi 1024" .
  qed
  then show ?thesis by (simp add: q_def power_int_def power_one_over)
qed

lemma dropped_projectile_facts:
  "vertical dropped_projectile = Fin 0"
  "discriminant_fl dropped_projectile = Fin (5522539043063071 / 2 ^ 48)"
  "spec_displacement dropped_projectile = Fin (8133926805169229 / 2 ^ 53)"
proof -
  show v: "vertical dropped_projectile = Fin 0"
    by (simp add: vertical_def dropped_projectile_def math_sin_def)
  have gh: "fmul (fmul (Fin 2) GRAVITATIONAL_ACCELERATION) (Fin (priv_height dropped_projectile))
      = Fin (5522539043063071 / 2 ^ 48)"
  proof -
    have "fl (5522539043063071 / 2 ^ 48) = Fin (5522539043063071 / 2 ^ 48)"
      using fl_2g by simp
    then show ?thesis
      unfolding GRAVITATIONAL_ACCELERATION_def dropped_projectile_def
      by (simp only: fmul.simps fl_2g Projectile.select_convs mult_1_right)
  qed
  show D: "discriminant_fl dropped_projectile = Fin (5522539043063071 / 2 ^ 48)"
  proof -
    have "fl (5522539043063071 / 2 ^ 48) = Fin (5522539043063071 / 2 ^ 48)"
      using fl_2g by simp
    then show ?thesis
      unfolding discriminant_fl_def v gh by (simp only: fsquare.simps mult_zero_left fl_0 fadd.simps add_0)
  qed
  have h: "fmul (Fin (priv_speed dropped_projectile)) (math_cos (priv_angle dropped_projectile)) = Fin 2"
    by (simp add: dropped_projectile_def math_cos_def fl_1 fl_2)
  have s: "fadd (vertical dropped_projectile) (fsqrt (discriminant_fl dropped_projectile))
      = Fin (623389234052423 / 2 ^ 47)"
    unfolding v D by (simp only: fsqrt.simps fl_sqrt_2g fadd.simps add_0 fl_root)
  show "spec_displacement dropped_projectile = Fin (8133926805169229 / 2 ^ 53)"
    unfolding spec_displacement_def h s GRAVITATIONAL_ACCELERATION_def
    by (simp only: fmul.simps fl_2_root fdivide.simps fl_dropped_range)
qed

lemma dropped_projectile_displacement:
  "calculate_displacement dropped_projectile = Inr (Fin (8133926805169229 / 2 ^ 53))"
  by (simp add: displacement_cases dropped_projectile_facts pow2_overflows_def is_negative_def
      is_fin_def)

lemma dropped_projectile_height: "calculate_y_coordinate dropped_projectile 0 = Inr (Fin 1)"
proof -
  have d: "denominator dropped_projectile = Fin 8"
    by (simp add: denominator_def dropped_projectile_def math_cos_def fl_1 fl_4 fl_8)
  have n: "\<not> pow2_overflows (Fin (priv_speed dropped_projectile))"
    by (simp add: dropped_projectile_def pow2_overflows_def fl_4 is_fin_def)
  have "spec_y dropped_projectile 0 = Fin 1"
    unfolding spec_y_def d
    by (simp add: dropped_projectile_def math_tan_def GRAVITATIONAL_ACCELERATION_def fl_1 fsub_def)
  then show ?thesis using n by (simp add: y_coordinate_cases d is_fin_def)
qed

lemma dropped_projectile_ceiling: "\<lceil>8133926805169229 / 2 ^ 53 :: real\<rceil> = 1"
  by (simp add: ceiling_eq_iff)

lemma level_projectile_denominator: "denominator level_projectile = Fin 8"
  by (simp add: denominator_def level_projectile_def math_cos_def fl_1 fl_4 fl_8)

lemma level_projectile_no_overflow: "\<not> pow2_overflows (Fin (priv_speed level_projectile))"
  by (simp add: level_projectile_def pow2_overflows_def fl_4 is_fin_def)

lemma fl_level_height:
  "fl (5 - 5522539043063071 / 2 ^ 52) = Fin (531108096680919 / 2 ^ 47)"
proof -
  have "fl (5 - 5522539043063071 / 2 ^ 52) = Fin (of_int 8497729546894704 * 2 powi (1 - 52))"
  proof (rule fl_eval)
    show "2 powi 1 \<le> \<bar>5 - 5522539043063071 / 2 ^ 52 :: real\<bar>" by simp
    show "\<bar>5 - 5522539043063071 / 2 ^ 52 :: real\<bar> < 2 powi (1 + 1)" by simp
    show "- 1022 \<le> (1::int)" by simp
    show "py_round ((5 - 5522539043063071 / 2 ^ 52) / 2 powi (1 - 52)) = 8497729546894704"
      by (simp add: py_round_def power_int_minus Let_def)
    show "\<bar>real_of_int 8497729546894704 * 2 powi (1 - 52)\<bar> < 2 powi 1024"
    proof -
      have "\<bar>real_of_int 8497729546894704 * 2 powi (1 - 52)\<bar> \<le> 4"
        by (simp add: power_int_def power_one_over)
      also have "(4::real) < 2 powi 1024" by (simp add: power_int_def)
      finally show ?thesis .
    qed
  qed
  then show ?thesis by (simp add: power_int_def power_one_over)
qed

lemma level_projectile_height: "spec_y level_projectile 1 = Fin (531108096680919 / 2 ^ 47)"
proof -
  have "fmul GRAVITATIONAL_ACCELERATION (fl (of_int (1\<^sup>2))) = Fin (5522539043063071 / 2 ^ 49)"
    using fl_g by (simp add: GRAVITATIONAL_ACCELERATION_def fl_1)
  moreover have "fadd (Fin (priv_height level_projectile))
      (fmul (fl (of_int 1)) (math_tan (priv_angle level_projectile))) = Fin 5"
    by (simp add: level_projectile_def math_tan_def fl_1 fl_5)
  ultimately show ?thesis
    unfolding spec_y_def level_projectile_denominator
    using fl_g_8 fl_level_height by (simp add: fsub_def)
qed

lemma stopped_projectile_denominator:
  assumes "priv_speed self = 0"
  shows "denominator self = Fin 0" and "\<not> pow2_overflows (Fin (priv_speed self))"
proof -
  have "\<bar>cos (priv_angle self)\<bar> \<le> 1" by simp
  from fsquare_le_one [OF this] obtain c where "fsquare (math_cos (priv_angle self)) = Fin c"
    by (auto simp: math_cos_def)
  then show "denominator self = Fin 0" by (simp add: denominator_def assms)
  show "\<not> pow2_overflows (Fin (priv_speed self))"
    by (simp add: assms pow2_overflows_def is_fin_def)
qed

lemma zero_cosine_denominator:
  assumes "math_cos (priv_angle self) = Fin 0"
    and "is_fin (fmul (Fin 2) (fsquare (Fin (priv_speed self))))"
  shows "denominator self = Fin 0"
  using assms by (auto simp: denominator_def is_fin_def split: pyfloat.splits)

subsection \<open>A speed whose square underflows\<close>

lemma tiny_speed_powi: "tiny_speed = 2 powi (- 600)"
  by (simp add: tiny_speed_def power_int_minus power_int_def field_simps)

lemma slow_square: "fl (tiny_speed * tiny_speed) = Fin 0"
proof -
  have "(2::real) powi (- 600) * 2 powi (- 600) = 2 powi (- 1200)" by (simp flip: power_int_add)
  moreover have "(2::real) powi (- 1200) < 2 powi (- 1075)"
    by (intro power_int_strict_increasing) simp_all
  ultimately have "fl (2 powi (- 600) * 2 powi (- 600)) = Fin 0"
    by (intro fl_underflow) simp_all
  then show ?thesis by (simp only: tiny_speed_powi)
qed

lemma slow_projectile_denominator: "denominator slow_projectile = Fin 0"
  by (simp add: denominator_def slow_projectile_def slow_square math_cos_def fl_1)

lemma slow_projectile_no_overflow: "\<not> pow2_overflows (Fin (priv_speed slow_projectile))"
  by (simp add: slow_projectile_def pow2_overflows_def slow_square is_fin_def)

lemma slow_projectile_raises:
  "calculate_y_coordinate slow_projectile 0 = Inl ZeroDivisionError"
  "calculate_y_coordinate slow_projectile 1 = Inl ZeroDivisionError"
  using slow_projectile_no_overflow
  by (simp_all add: y_coordinate_cases slow_projectile_denominator fl_1 is_fin_def)

lemma slow_projectile_vertical: "vertical slow_projectile = Fin 0"
  by (simp add: vertical_def slow_projectile_def math_sin_def)

lemma fl_tiny_root:
  "fl (tiny_speed * (623389234052423 / 2 ^ 47)) = Fin (tiny_speed * (623389234052423 / 2 ^ 47))"
proof (rule fl_exact [where m = 623389234052423 and e = "- 647"])
  have "(2::real) powi (- 647) = 2 powi (- 600) * 2 powi (- 47)"
    using power_int_add [of "2::real" "- 600" "- 47"] by simp
  also have "\<dots> = tiny_speed * (1 / 2 ^ 47)"
    by (simp only: tiny_speed_powi) (simp add: power_int_def power_one_over)
  finally show "tiny_speed * (623389234052423 / 2 ^ 47)
      = real_of_int 623389234052423 * 2 powi (- 647)" by simp
  show "\<bar>623389234052423 :: int\<bar> < 2 ^ 53" by simp
  show "- 1074 \<le> (- 647 :: int)" by simp
  have "(2::real) powi (- 600) \<le> 2 powi 0" by (intro power_int_increasing) simp_all
  then have "tiny_speed \<le> 1" by (simp add: tiny_speed_powi)
  moreover have "0 \<le> tiny_speed" by (simp add: tiny_speed_def)
  ultimately have "\<bar>tiny_speed * (623389234052423 / 2 ^ 47)\<bar> \<le> 1 * (623389234052423 / 2 ^ 47)"
    unfolding abs_mult by (intro mult_mono) simp_all
  also have "\<dots> \<le> (8::real)" by simp
  also have "(8::real) < 2 powi 1024" by (simp add: power_int_def)
  finally show "\<bar>tiny_speed * (623389234052423 / 2 ^ 47)\<bar> < 2 powi 1024" .
qed

lemma fl_slow_range:
  "fl (tiny_speed * (623389234052423 / 2 ^ 47) / (5522539043063071 / 2 ^ 49))
     = Fin (8133926805169229 / 2 ^ 54 * tiny_speed)"
proof -
  define q :: real where "q = 623389234052423 / 2 ^ 46 / (5522539043063071 / 2 ^ 49)"
  have p: "(2::real) powi (- 601) = tiny_speed / 2"
    using power_int_add [of "2::real" "- 600" "- 1"] by (simp add: tiny_speed_powi)
  have "fl (q * 2 powi (- 601)) = Fin (8133926805169229 / 2 ^ 53 * 2 powi (- 601))"
  proof (rule fl_scale [where k = "- 1"])
    show "fl q = Fin (8133926805169229 / 2 ^ 53)" unfolding q_def by (rule fl_dropped_range)
    show "2 powi (- 1) \<le> \<bar>q\<bar>" by (simp add: q_def power_int_def)
    show "- 1022 \<le> (- 1 :: int)" by simp
    show "- 1022 \<le> (- 1 + - 601 :: int)" by simp
    have "(2::real) powi (- 600) \<le> 2 powi 0" by (intro power_int_increasing) simp_all
    then have "tiny_speed \<le> 1" by (simp add: tiny_speed_powi)
    moreover have "0 \<le> tiny_speed" by (simp add: tiny_speed_def)
    ultimately have "\<bar>8133926805169229 / 2 ^ 53 * (tiny_speed / 2)\<bar> \<le> 1"
      by (simp add: abs_mult) 
    also have "(1::real) < 2 powi 1024" by (simp add: power_int_def)
    finally show "\<bar>8133926805169229 / 2 ^ 53 * 2 powi (- 601) :: real\<bar> < 2 powi 1024"
      unfolding p .
  qed
  then show ?thesis unfolding p q_def by (simp add: field_simps)
qed

lemma slow_projectile_range:
  "calculate_displacement slow_projectile = Inr (Fin (8133926805169229 / 2 ^ 54 * tiny_speed))"
proof -
  have v: "vertical slow_projectile = Fin 0" by (rule slow_projectile_vertical)
  have gh: "fmul (fmul (Fin 2) GRAVITATIONAL_ACCELERATION) (Fin (priv_height slow_projectile))
      = Fin (5522539043063071 / 2 ^ 48)"
  proof -
    have "fl (5522539043063071 / 2 ^ 48) = Fin (5522539043063071 / 2 ^ 48)"
      using fl_2g by simp
    then show ?thesis
      unfolding GRAVITATIONAL_ACCELERATION_def slow_projectile_def
      by (simp only: fmul.simps fl_2g Projectile.select_convs mult_1_right)
  qed
  have D: "discriminant_fl slow_projectile = Fin (5522539043063071 / 2 ^ 48)"
  proof -
    have "fl (5522539043063071 / 2 ^ 48) = Fin (5522539043063071 / 2 ^ 48)"
      using fl_2g by simp
    then show ?thesis
      unfolding discriminant_fl_def v gh
      by (simp only: fsquare.simps mult_zero_left fl_0 fadd.simps add_0)
  qed
  have u: "fl tiny_speed = Fin tiny_speed"
    unfolding tiny_speed_powi using fl_between [of "- 600" "2 powi (- 600)" "- 600"] by auto
  have h: "fmul (Fin (priv_speed slow_projectile)) (math_cos (priv_angle slow_projectile))
      = Fin tiny_speed"
    unfolding slow_projectile_def math_cos_def
    by (simp only: Projectile.select_convs cos_zero fl_1 fmul.simps mult_1_right u)
  have s: "fadd (vertical slow_projectile) (fsqrt (discriminant_fl slow_projectile))
      = Fin (623389234052423 / 2 ^ 47)"
    unfolding v D by (simp only: fsqrt.simps fl_sqrt_2g fadd.simps add_0 fl_root)
  have "spec_displacement slow_projectile = Fin (8133926805169229 / 2 ^ 54 * tiny_speed)"
    unfolding spec_displacement_def h s GRAVITATIONAL_ACCELERATION_def
    by (simp only: fmul.simps fl_tiny_root fdivide.simps fl_slow_range)
  moreover have "\<not> pow2_overflows (vertical slow_projectile)"
    by (simp add: v pow2_overflows_def is_fin_def)
  moreover have "\<not> is_negative (discriminant_fl slow_projectile)"
    by (simp add: D is_negative_def)
  ultimately show ?thesis by (simp only: displacement_cases if_False)
qed

lemma slow_projectile_range_positive: "0 < 8133926805169229 / 2 ^ 54 * tiny_speed"
  by (simp add: tiny_speed_def)

lemma slow_projectile_coordinates:
  "calculate_all_coordinates slow_projectile = Inl ZeroDivisionError"
proof -
  define d where "d = 8133926805169229 / 2 ^ 54 * tiny_speed"
  have d: "calculate_displacement slow_projectile = Inr (Fin d)"
    unfolding d_def by (rule slow_projectile_range)
  have "0 < d" unfolding d_def by (rule slow_projectile_range_positive)
  moreover have "d \<le> 1"
  proof -
    have "(2::real) powi (- 600) \<le> 2 powi 0" by (intro power_int_increasing) simp_all
    then have "tiny_speed \<le> 1" by (simp add: tiny_speed_powi)
    moreover have "0 \<le> tiny_speed" by (simp add: tiny_speed_def)
    ultimately have "8133926805169229 / 2 ^ 54 * tiny_speed \<le> 1 * 1"
      by (intro mult_mono) simp_all
    then show ?thesis by (simp add: d_def)
  qed
  ultimately have "\<lceil>d\<rceil> = 1" by (simp add: ceiling_eq_iff)
  then show ?thesis
    by (simp add: calculate_all_coordinates_def d py_range_def slow_projectile_raises(1))
qed

subsection \<open>A height whose product with \<open>2 g\<close> overflows\<close>

lemma huge_height_powi: "huge_height = 2 powi 1023"
  unfolding huge_height_def power_int_def by simp

lemma fl_gh_overflows: "fl (5522539043063071 / 2 ^ 48 * huge_height) = PInf"
proof (rule fl_overflow)
  have "(2::real) powi 1024 = 2 * 2 powi 1023"
    using power_int_add [of "2::real" 1 1023] by simp
  also have "\<dots> \<le> 5522539043063071 / 2 ^ 48 * 2 powi 1023"
    by (intro mult_right_mono) simp_all
  finally show "2 powi 1024 \<le> 5522539043063071 / 2 ^ 48 * huge_height"
    by (simp only: huge_height_powi)
qed

lemma high_projectile_facts:
  "\<not> pow2_overflows (vertical high_projectile)"
  "discriminant_fl high_projectile = PInf"
  "spec_displacement high_projectile = PInf"
proof -
  have v: "vertical high_projectile = Fin 0"
    by (simp add: vertical_def high_projectile_def math_sin_def)
  show "\<not> pow2_overflows (vertical high_projectile)"
    by (simp add: v pow2_overflows_def is_fin_def)
  have gh: "fmul (fmul (Fin 2) GRAVITATIONAL_ACCELERATION) (Fin (priv_height high_projectile)) = PInf"
    unfolding GRAVITATIONAL_ACCELERATION_def high_projectile_def
    by (simp only: fmul.simps fl_2g Projectile.select_convs fl_gh_overflows)
  show D: "discriminant_fl high_projectile = PInf"
    unfolding discriminant_fl_def v gh by (simp only: fsquare.simps mult_zero_left fl_0 fadd.simps)
  have h: "fmul (Fin (priv_speed high_projectile)) (math_cos (priv_angle high_projectile)) = Fin 2"
    by (simp add: high_projectile_def math_cos_def fl_1 fl_2)
  show "spec_displacement high_projectile = PInf"
    unfolding spec_displacement_def h v D GRAVITATIONAL_ACCELERATION_def by simp
qed

lemma high_stopped_projectile_facts:
  "\<not> pow2_overflows (vertical high_stopped_projectile)"
  "discriminant_fl high_stopped_projectile = PInf"
  "spec_displacement high_stopped_projectile = NaN"
proof -
  have v: "vertical high_stopped_projectile = Fin 0"
    by (simp add: vertical_def high_stopped_projectile_def math_sin_def)
  show "\<not> pow2_overflows (vertical high_stopped_projectile)"
    by (simp add: v pow2_overflows_def is_fin_def)
  have gh: "fmul (fmul (Fin 2) GRAVITATIONAL_ACCELERATION)
      (Fin (priv_height high_stopped_projectile)) = PInf"
    unfolding GRAVITATIONAL_ACCELERATION_def high_stopped_projectile_def
    by (simp only: fmul.simps fl_2g Projectile.select_convs fl_gh_overflows)
  show D: "discriminant_fl high_stopped_projectile = PInf"
    unfolding discriminant_fl_def v gh by (simp only: fsquare.simps mult_zero_left fl_0 fadd.simps)
  have h: "fmul (Fin (priv_speed high_stopped_projectile))
      (math_cos (priv_angle high_stopped_projectile)) = Fin 0"
    by (simp add: high_stopped_projectile_def math_cos_def fl_1)
  show "spec_displacement high_stopped_projectile = NaN"
    unfolding spec_displacement_def h v D GRAVITATIONAL_ACCELERATION_def by simp
qed

lemma high_projectile_displacement:
  "calculate_displacement high_projectile = Inr PInf"
  "calculate_displacement high_stopped_projectile = Inr NaN"
  by (simp_all add: displacement_cases high_projectile_facts high_stopped_projectile_facts
      is_negative_def)

subsection \<open>The cosine at 90 degrees\<close>

text \<open>\<open>math.radians(90)\<close> is \<open>0x1.921fb54442d18p+0\<close>, the double nearest to \<open>\<pi> / 2\<close>,
  which lies below \<open>\<pi> / 2\<close>.\<close>

lemma radians_90: "math_radians 90 = 884279719003555 / 2 ^ 49"
proof -
  have "round_to_double (90 * degToRad) = of_int 7074237752028440 * 2 powi (0 - 52)"
  proof (rule round_to_double_eval)
    show "90 * degToRad \<noteq> 0" by (simp add: degToRad_def)
    show "ilog2 \<bar>90 * degToRad\<bar> = 0"
      by (simp add: ilog2_def degToRad_def) code_simp
    show "py_round (90 * degToRad / 2 powi (0 - 52)) = 7074237752028440"
      by (simp add: py_round_def degToRad_def power_int_minus Let_def)
  qed
  then show ?thesis
    by (simp add: math_radians_def power_int_minus)
qed

text \<open>The partial sums of the series of the arc tangent enclose it.\<close>

lemma arctan_partial_sums:
  assumes "0 \<le> x" and "x \<le> 1"
  shows "(\<Sum>k<2 * n. (- 1) ^ k * (1 / real (k * 2 + 1) * x ^ (k * 2 + 1))) \<le> arctan x"
    and "arctan x \<le> (\<Sum>k<2 * n + 1. (- 1) ^ k * (1 / real (k * 2 + 1) * x ^ (k * 2 + 1)))"
proof -
  define a where "a = (\<lambda>k. 1 / real (k * 2 + 1) * x ^ (k * 2 + 1))"
  have ax: "\<bar>x\<bar> \<le> 1" using assms by simp
  have zero: "a \<longlonglongrightarrow> 0" unfolding a_def using ax by (rule zeroseq_arctan_series)
  have pos: "0 \<le> a k" for k unfolding a_def using assms(1) by simp
  have mono: "a (Suc k) \<le> a k" for k
  proof -
    have "x ^ (Suc k * 2 + 1) \<le> x ^ (k * 2 + 1)"
      using assms by (intro power_decreasing) simp_all
    moreover have "1 / real (Suc k * 2 + 1) \<le> 1 / real (k * 2 + 1)"
      by (intro divide_left_mono) simp_all
    ultimately show ?thesis
      unfolding a_def using assms(1) by (intro mult_mono) simp_all
  qed
  have s: "arctan x = (\<Sum>k. (- 1) ^ k * a k)"
    unfolding a_def using ax by (rule arctan_series)
  show "(\<Sum>k<2 * n. (- 1) ^ k * (1 / real (k * 2 + 1) * x ^ (k * 2 + 1))) \<le> arctan x"
    using summable_Leibniz'(2) [OF zero pos mono, of n] unfolding s a_def .
  show "arctan x \<le> (\<Sum>k<2 * n + 1. (- 1) ^ k * (1 / real (k * 2 + 1) * x ^ (k * 2 + 1)))"
    using summable_Leibniz'(4) [OF zero pos mono, of n] unfolding s a_def .
qed

lemma pi_lower: "884279719003555 / 2 ^ 48 + 1 / 2 ^ 53 \<le> pi"
proof -
  have l: "(\<Sum>k<2 * 6. (- 1) ^ k * (1 / real (k * 2 + 1) * (1 / 5) ^ (k * 2 + 1)))
      \<le> arctan (1 / 5)"
    by (rule arctan_partial_sums) simp_all
  have u: "arctan (1 / 239)
      \<le> (\<Sum>k<2 * 2 + 1. (- 1) ^ k * (1 / real (k * 2 + 1) * (1 / 239) ^ (k * 2 + 1)))"
    by (rule arctan_partial_sums) simp_all
  have "pi = 16 * arctan (1 / 5) - 4 * arctan (1 / 239)" using machin by simp
  moreover have "884279719003555 / 2 ^ 48 + 1 / 2 ^ 53
      \<le> 16 * (\<Sum>k<2 * 6. (- 1) ^ k * (1 / real (k * 2 + 1) * (1 / 5) ^ (k * 2 + 1)))
        - 4 * (\<Sum>k<2 * 2 + 1. (- 1) ^ k * (1 / real (k * 2 + 1) * (1 / 239) ^ (k * 2 + 1)))"
    by (simp add: eval_nat_numeral)
  ultimately show ?thesis using l u by linarith
qed

lemma sin_lower:
  fixes x :: real
  assumes "0 \<le> x" and "x \<le> 1"
  shows "x / 2 \<le> sin x"
proof -
  have "\<bar>sin x - (\<Sum>m<3. sin_coeff m * x ^ m)\<bar> \<le> inverse (fact 3) * \<bar>x\<bar> ^ 3"
    by (rule Maclaurin_sin_bound)
  moreover have "(\<Sum>m<3. sin_coeff m * x ^ m) = x"
    by (simp add: eval_nat_numeral sin_coeff_def)
  moreover have "inverse (fact 3) * \<bar>x\<bar> ^ 3 = x ^ 3 / 6"
    using assms(1) by (simp add: eval_nat_numeral)
  ultimately have "x - x ^ 3 / 6 \<le> sin x" by linarith
  moreover have "x ^ 3 \<le> x"
    using power_decreasing [of 1 3 x] assms by simp
  ultimately show ?thesis using assms(1) by linarith
qed

lemma cos_radians_90: "2 powi (- 55) \<le> cos (math_radians 90)" "cos (math_radians 90) \<le> 2 powi 0"
proof -
  define d where "d = pi / 2 - math_radians 90"
  have "1 / 2 ^ 54 \<le> d" unfolding d_def radians_90 using pi_lower by (simp add: field_simps)
  moreover have "d \<le> 1" unfolding d_def radians_90 using pi_less_4 by simp
  ultimately have "1 / 2 ^ 54 / 2 \<le> sin d" using sin_lower [of d] by simp
  moreover have "cos (math_radians 90) = sin d" unfolding d_def by (simp add: cos_sin_eq)
  ultimately show "2 powi (- 55) \<le> cos (math_radians 90)"
    by (simp add: power_int_def power_one_over)
  show "cos (math_radians 90) \<le> 2 powi 0" by simp
qed

lemma upward_projectile_cosine:
  "\<exists>c. math_cos (priv_angle upward_projectile) = Fin c \<and> 2 powi (- 55) \<le> c \<and> c \<le> 2 powi 0"
  unfolding math_cos_def upward_projectile_def init_Projectile_def
  using fl_between [OF cos_radians_90] by simp

lemma upward_projectile_denominator: "denominator upward_projectile \<noteq> Fin 0"
proof -
  obtain c where c: "math_cos (priv_angle upward_projectile) = Fin c"
    "2 powi (- 55) \<le> c" "c \<le> 2 powi 0"
    using upward_projectile_cosine by auto
  have c0: "0 \<le> c" using c(2) zero_less_power_int [of "2::real" "- 55"] by linarith
  have "2 powi (- 55) * 2 powi (- 55) \<le> c * c"
    using c(2) by (intro mult_mono) simp_all
  then have 1: "2 powi (- 110) \<le> c * c" by (simp flip: power_int_add)
  have "c * c \<le> 2 powi 0 * 2 powi 0" using c(3) c0 by (intro mult_mono) simp_all
  then have 2: "c * c \<le> 2 powi 0" by simp
  obtain e where e: "fl (c * c) = Fin e" "2 powi (- 110) \<le> e" "e \<le> 2 powi 0"
    using fl_between [OF 1 2] by auto
  have e0: "0 \<le> e" using e(2) zero_less_power_int [of "2::real" "- 110"] by linarith
  have "1 * 2 powi (- 110) \<le> 200 * e" using e(2) by (intro mult_mono) simp_all
  then have 3: "2 powi (- 110) \<le> 200 * e" by simp
  have "200 * e \<le> 2 powi 8" using e(3) by simp
  with 3 obtain d where d: "fl (200 * e) = Fin d" "2 powi (- 110) \<le> d"
    using fl_between [of "- 110" "200 * e" 8] by auto
  have "0 < d" using d(2) zero_less_power_int [of "2::real" "- 110"] by linarith
  moreover have "denominator upward_projectile = Fin d"
    unfolding denominator_def c(1)
    by (simp add: upward_projectile_def init_Projectile_def fl_100 fl_200 e(1) d(1))
  ultimately show ?thesis by simp
qed

lemma upward_projectile_returns:
  "calculate_y_coordinate upward_projectile 1 = Inr (spec_y upward_projectile 1)"
proof -
  have "\<not> pow2_overflows (Fin (priv_speed upward_projectile))"
    by (simp add: upward_projectile_def init_Projectile_def pow2_overflows_def fl_100 is_fin_def)
  then show ?thesis
    using upward_projectile_denominator by (simp add: y_coordinate_cases fl_1 is_fin_def)
qed

section \<open>The displacement\<close>







section \<open>The height at a point\<close>







section \<open>Sampling the trajectory\<close>

lemma collect_points_returns:
  assumes "\<forall>x \<in> set xs. \<exists>y. calculate_y_coordinate self x = Inr y"
  shows "\<exists>pts. collect_points self xs = Inr pts \<and> map fst pts = xs \<and>
    (\<forall>(x, y) \<in> set pts. calculate_y_coordinate self x = Inr y)"
  using assms
proof (induction xs)
  case Nil
  then show ?case by simp
next
  case (Cons x xs)
  then obtain y where y: "calculate_y_coordinate self x = Inr y" by auto
  from Cons obtain pts where "collect_points self xs = Inr pts" "map fst pts = xs"
    "\<forall>(x, y) \<in> set pts. calculate_y_coordinate self x = Inr y" by auto
  with y show ?case by simp
qed

lemma collect_points_raises:
  assumes "x \<in> set xs" and "calculate_y_coordinate self x = Inl e"
  shows "\<exists>e'. collect_points self xs = Inl e'"
  using assms by (induction xs) (auto split: sum.splits)




section \<open>The angle accessor\<close>

text \<open>The two conversions at 7.5 degrees: \<open>math.radians(7.5)\<close> is
  \<open>0x1.0c152382d7365p-3\<close>, and \<open>math.degrees\<close> of it is \<open>0x1.dffffffffffffp+2\<close>, one
  unit in the last place below 7.5.\<close>

lemma radians_7_5: "math_radians (15 / 2) = 4716158501352293 / 2 ^ 55"
proof -
  have "round_to_double (15 / 2 * degToRad) = of_int 4716158501352293 * 2 powi (- 3 - 52)"
  proof (rule round_to_double_eval)
    show "15 / 2 * degToRad \<noteq> 0" by (simp add: degToRad_def)
    show "ilog2 \<bar>15 / 2 * degToRad\<bar> = - 3"
      by (simp add: ilog2_def degToRad_def) code_simp
    show "py_round (15 / 2 * degToRad / 2 powi (- 3 - 52)) = 4716158501352293"
      by (simp add: py_round_def degToRad_def power_int_minus Let_def)
  qed
  then show ?thesis
    by (simp add: math_radians_def power_int_minus)
qed

lemma degrees_radians_7_5: "math_degrees (math_radians (15 / 2)) = 8444249301319679 / 2 ^ 50"
proof -
  have "round_to_double (4716158501352293 / 2 ^ 55 * radToDeg)
      = of_int 8444249301319679 * 2 powi (2 - 52)"
  proof (rule round_to_double_eval)
    show "4716158501352293 / 2 ^ 55 * radToDeg \<noteq> 0" by (simp add: radToDeg_def)
    show "ilog2 \<bar>4716158501352293 / 2 ^ 55 * radToDeg\<bar> = 2"
      by (simp add: ilog2_def radToDeg_def) code_simp
    show "py_round (4716158501352293 / 2 ^ 55 * radToDeg / 2 powi (2 - 52)) = 8444249301319679"
      by (simp add: py_round_def radToDeg_def power_int_minus Let_def)
  qed
  then show ?thesis
    unfolding radians_7_5 by (simp add: math_degrees_def power_int_minus)
qed

text \<open>The error of the round trip through radians, for an integer number of degrees.\<close>

lemma roundtrip_arith:
  fixes A B C X T G :: real
  assumes "A \<le> X * degToRad / 2 ^ 53"
    and "B \<le> C * radToDeg / 2 ^ 53"
    and "C \<le> X * degToRad / 2 ^ 53 + X * degToRad"
    and "T \<le> A * radToDeg + X / 2 ^ 55"
    and "X \<le> 2 ^ 50"
    and "G \<le> B + T"
  shows "G < 1 / 2"
  using assms unfolding degToRad_def radToDeg_def by simp

lemma degrees_radians_near:
  fixes d :: int
  assumes "\<bar>d\<bar> \<le> 2 ^ 50"
  shows "\<bar>math_degrees (math_radians (of_int d)) - of_int d\<bar> < 1 / 2"
proof -
  define x :: real where "x = of_int d"
  define r1 where "r1 = round_to_double (x * degToRad)"
  define r2 where "r2 = round_to_double (r1 * radToDeg)"
  have x: "\<bar>x\<bar> \<le> 2 ^ 50"
    using assms unfolding x_def by (metis of_int_abs of_int_le_iff of_int_numeral of_int_power)
  have "\<bar>r1 - x * degToRad\<bar> \<le> \<bar>x * degToRad\<bar> / 2 ^ 53"
    unfolding r1_def by (rule round_to_double_error)
  also have "\<bar>x * degToRad\<bar> = \<bar>x\<bar> * degToRad"
    by (simp add: abs_mult degToRad_def)
  finally have e1: "\<bar>r1 - x * degToRad\<bar> \<le> \<bar>x\<bar> * degToRad / 2 ^ 53" .
  have "\<bar>r1\<bar> \<le> \<bar>r1 - x * degToRad\<bar> + \<bar>x\<bar> * degToRad"
    by (simp add: abs_mult degToRad_def)
  with e1 have m1: "\<bar>r1\<bar> \<le> \<bar>x\<bar> * degToRad / 2 ^ 53 + \<bar>x\<bar> * degToRad" by linarith
  have "\<bar>r2 - r1 * radToDeg\<bar> \<le> \<bar>r1 * radToDeg\<bar> / 2 ^ 53"
    unfolding r2_def by (rule round_to_double_error)
  also have "\<bar>r1 * radToDeg\<bar> = \<bar>r1\<bar> * radToDeg"
    by (simp add: abs_mult radToDeg_def)
  finally have e2: "\<bar>r2 - r1 * radToDeg\<bar> \<le> \<bar>r1\<bar> * radToDeg / 2 ^ 53" .
  have t: "\<bar>r1 * radToDeg - x\<bar> \<le> \<bar>r1 - x * degToRad\<bar> * radToDeg + \<bar>x\<bar> / 2 ^ 55"
  proof -
    have "r1 * radToDeg - x = (r1 - x * degToRad) * radToDeg + x * (degToRad * radToDeg - 1)"
      by (simp add: algebra_simps)
    then have "\<bar>r1 * radToDeg - x\<bar>
        \<le> \<bar>(r1 - x * degToRad) * radToDeg\<bar> + \<bar>x * (degToRad * radToDeg - 1)\<bar>"
      by (simp only: abs_triangle_ineq)
    moreover have "0 < radToDeg" by (simp add: radToDeg_def)
    then have "\<bar>(r1 - x * degToRad) * radToDeg\<bar> = \<bar>r1 - x * degToRad\<bar> * radToDeg"
      by (simp only: abs_mult abs_of_pos)
    moreover have "\<bar>x * (degToRad * radToDeg - 1)\<bar> \<le> \<bar>x\<bar> / 2 ^ 55"
      by (simp add: abs_mult radToDeg_def degToRad_def)
    ultimately show ?thesis by linarith
  qed
  have "\<bar>r2 - x\<bar> \<le> \<bar>r2 - r1 * radToDeg\<bar> + \<bar>r1 * radToDeg - x\<bar>" by linarith
  with e1 e2 m1 t x have "\<bar>r2 - x\<bar> < 1 / 2"
    by (rule roundtrip_arith)
  then show ?thesis
    by (simp add: math_degrees_def math_radians_def r1_def r2_def x_def)
qed

text \<open>The setter does not read the stored angle: setting the same value again changes
  nothing.\<close>

lemma set_angle_repeat:
  "0 < n \<Longrightarrow> ((\<lambda>p. set_angle p a) ^^ n) self = set_angle self a"
proof (induction n)
  case 0
  then show ?case by simp
next
  case (Suc n)
  show ?case
  proof (cases "n = 0")
    case True
    then show ?thesis by simp
  next
    case False
    with Suc.IH have "((\<lambda>p. set_angle p a) ^^ n) self = set_angle self a" by simp
    then show ?thesis by (simp add: set_angle_def)
  qed
qed

text \<open>
  Claim C9, as stated: for every degree value \<open>d\<close>, setting the angle to \<open>d\<close> and
  reading it yields \<open>round(d)\<close>. This fails at \<open>d = 7.5\<close>: the accessor yields 7,
  and \<open>round(7.5)\<close> is 8.
\<close>

theorem angle_roundtrip_counterexample:
  "angle (set_angle (init_Projectile 1 0 0) (15 / 2)) = 7 \<and> py_round (15 / 2) = 8"
proof -
  have "py_round (8444249301319679 / 2 ^ 50) = 7" by (simp add: py_round_def Let_def)
  moreover have "py_round (15 / 2) = 8" by (simp add: py_round_def Let_def)
  ultimately show ?thesis by (simp add: angle_def set_angle_def degrees_radians_7_5)
qed

text \<open>
  Claim C9, amended: for every integer degree value \<open>d\<close> with \<open>\<bar>d\<bar> \<le> 2\<^sup>5\<^sup>0\<close>, setting
  the angle to \<open>d\<close> once or any number of times in a row and then reading it yields
  \<open>d\<close>, which is \<open>round(d)\<close>.
\<close>

theorem angle_roundtrip_integer:
  fixes d :: int
  assumes "\<bar>d\<bar> \<le> 2 ^ 50" and "0 < n"
  shows "angle (((\<lambda>p. set_angle p (of_int d)) ^^ n) self) = d \<and> py_round (of_int d) = d"
proof -
  have "angle (set_angle self (of_int d)) = d"
    using degrees_radians_near [OF assms(1)]
    by (simp add: angle_def set_angle_def py_round_near_int)
  moreover have "py_round (of_int d) = d" by (simp add: py_round_near_int)
  ultimately show ?thesis using assms(2) by (simp add: set_angle_repeat)
qed

theorem angle_roundtrip_integer_witness:
  "\<bar>30 :: int\<bar> \<le> 2 ^ 50 \<and> (0::nat) < 3 \<and>
   angle (((\<lambda>p. set_angle p (of_int 30)) ^^ 3) (init_Projectile 1 0 0)) = 30 \<and>
   py_round (of_int 30) = 30"
  using angle_roundtrip_integer [of 30 3 "init_Projectile 1 0 0"] by simp

section \<open>The coordinate table\<close>

lemma foldl_append_rows:
  "foldl (\<lambda>table (x, y). table @ f x y) acc ps = acc @ concat (map (\<lambda>(x, y). f x y) ps)"
  by (induction ps arbitrary: acc) (auto split: prod.splits)

lemma format_2f_eval:
  assumes "py_round (\<bar>y\<bar> * 100) = int n" and "0 \<le> y"
  shows "format_2f y = str_nat (n div 100) @ ''.'' @ [digit (n mod 100 div 10), digit (n mod 10)]"
  using assms by (simp add: format_2f_def Let_def)

lemma format_2f_0: "format_2f 0 = ''0.00''"
proof -
  have "py_round (\<bar>0\<bar> * 100) = int 0" by (simp add: py_round_def)
  then have "format_2f 0
      = str_nat (0 div 100) @ ''.'' @ [digit (0 mod 100 div 10), digit (0 mod 10)]"
    by (rule format_2f_eval) simp
  also have "\<dots> = ''0.00''" by code_simp
  finally show ?thesis .
qed

lemma format_2f_95: "format_2f (95 / 100) = ''0.95''"
proof -
  have "py_round (\<bar>95 / 100\<bar> * 100) = int 95" by (simp add: py_round_def)
  then have "format_2f (95 / 100)
      = str_nat (95 div 100) @ ''.'' @ [digit (95 mod 100 div 10), digit (95 mod 10)]"
    by (rule format_2f_eval) simp
  also have "\<dots> = ''0.95''" by code_simp
  finally show ?thesis .
qed

lemma rows_example:
  "format_row 0 0 = ''  0   0.00'' @ [newline]"
  "format_row 1 (95 / 100) = ''  1   0.95'' @ [newline]"
proof -
  have "rjust 3 (str_int 0) = ''  0''" "rjust 3 (str_int 1) = ''  1''"
    "rjust 7 ''0.00'' = ''   0.00''" "rjust 7 ''0.95'' = ''   0.95''"
    by code_simp+
  then show "format_row 0 0 = ''  0   0.00'' @ [newline]"
    "format_row 1 (95 / 100) = ''  1   0.95'' @ [newline]"
    unfolding format_row_def format_2f_0 format_2f_95 by simp_all
qed

lemma table_example:
  "create_coordinates_table [(0, 0), (1, 95 / 100)] =
     newline # ''  x      y'' @ newline # ''  0   0.00'' @ newline # ''  1   0.95'' @ [newline]"
  unfolding create_coordinates_table_def foldl_Cons foldl_Nil prod.case rows_example by simp

text \<open>
  Claim C5, as stated: the table is the header row \<open>'' x      y''\<close> with nothing before
  it, then the rows. For the points \<open>(0, 0.0)\<close> and \<open>(1, 0.95)\<close> the code returns a line
  break first, and its header row has two spaces before the \<open>x\<close>.
\<close>

theorem create_coordinates_table_counterexample:
  "create_coordinates_table [(0, 0), (1, 95 / 100)] =
     newline # ''  x      y'' @ newline # ''  0   0.00'' @ newline # ''  1   0.95'' @ [newline] \<and>
   create_coordinates_table [(0, 0), (1, 95 / 100)] \<noteq> spec_coordinate_table [(0, 0), (1, 95 / 100)]"
  unfolding table_example by (simp add: spec_coordinate_table_def newline_def)

text \<open>
  Claim C5, amended: the table is a line break, then the header row \<open>''  x      y''\<close>
  (ten characters: \<open>x\<close> at the right of three columns, \<open>y\<close> at the right of seven) and
  its line break, then one row per point in the order of the input, each row the \<open>x\<close>
  right-aligned in three columns, the \<open>y\<close> with two decimals right-aligned in seven
  columns, and a line break; for the points \<open>(0, 0.0)\<close> and \<open>(1, 0.95)\<close> it is the four
  lines shown.
\<close>

theorem create_coordinates_table_rows:
  "create_coordinates_table coordinates =
     newline # ''  x      y'' @ [newline] @
     concat (map (\<lambda>(x, y). rjust 3 (str_int x) @ rjust 7 (format_2f y) @ [newline]) coordinates) \<and>
   create_coordinates_table [(0, 0), (1, 95 / 100)] =
     newline # ''  x      y'' @ newline # ''  0   0.00'' @ newline # ''  1   0.95'' @ [newline]"
proof
  show "create_coordinates_table coordinates =
     newline # ''  x      y'' @ [newline] @
     concat (map (\<lambda>(x, y). rjust 3 (str_int x) @ rjust 7 (format_2f y) @ [newline]) coordinates)"
    unfolding create_coordinates_table_def foldl_append_rows format_row_def by simp
  show "create_coordinates_table [(0, 0), (1, 95 / 100)] =
     newline # ''  x      y'' @ newline # ''  0   0.00'' @ newline # ''  1   0.95'' @ [newline]"
    by (rule table_example)
qed

section \<open>The plot\<close>

subsection \<open>The maxima\<close>

lemma key_foldl_max:
  fixes key :: "'a \<Rightarrow> int"
  shows "key (foldl (\<lambda>best a. if key best < key a then a else best) b ys) = Max (key ` set (b # ys))"
proof (induction ys arbitrary: b)
  case Nil
  then show ?case by simp
next
  case (Cons a ys)
  show ?case
  proof (cases "key b < key a")
    case True
    have "key a \<le> Max (key ` set (a # ys))"
      by (intro Max_ge) simp_all
    with True have le: "key b \<le> Max (key ` set (a # ys))" by linarith
    have "Max (key ` set (b # a # ys)) = max (key b) (Max (key ` set (a # ys)))"
      by simp
    also have "\<dots> = Max (key ` set (a # ys))"
      using le by (rule max_absorb2)
    finally show ?thesis using True Cons.IH [of a] by simp
  next
    case False
    have "key b \<le> Max (key ` set (b # ys))"
      by (intro Max_ge) simp_all
    with False have le: "key a \<le> Max (key ` set (b # ys))" by linarith
    have "Max (key ` set (b # a # ys)) = max (key a) (Max (key ` set (b # ys)))"
      by (simp add: insert_commute)
    also have "\<dots> = Max (key ` set (b # ys))"
      using le by (rule max_absorb2)
    finally show ?thesis using False Cons.IH [of b] by simp
  qed
qed

lemma py_max_key_Max:
  assumes "xs \<noteq> []"
  shows "\<exists>r. py_max_key key xs = Inr r \<and> key r = Max (key ` set xs)"
proof -
  from assms obtain b ys where xs: "xs = b # ys" by (cases xs) auto
  show ?thesis unfolding xs py_max_key.simps using key_foldl_max [of key b ys] by blast
qed

lemma rounded_coords_Nil [simp]: "rounded_coords cs = [] \<longleftrightarrow> cs = []"
  by (simp add: rounded_coords_def)

subsection \<open>Indexing and the marking loop\<close>

lemma py_index_from_end:
  assumes "0 \<le> y" and "y < int n"
  shows "py_index n (- 1 - y) = Inr (nat (int n - 1 - y))"
  using assms by (auto simp: py_index_def intro!: arg_cong [where f = nat])

lemma py_index_from_start:
  assumes "0 \<le> x" and "x < int n"
  shows "py_index n x = Inr (nat x)"
  using assms by (simp add: py_index_def)

lemma py_index_error: "py_index n i = Inl e \<Longrightarrow> e = IndexError"
  by (auto simp: py_index_def split: if_splits)

lemma set_cell_error: "set_cell m r c v = Inl e \<Longrightarrow> e = IndexError"
  by (auto simp: set_cell_def split: sum.splits dest: py_index_error)

lemma mark_points_error: "mark_points m ps = Inl e \<Longrightarrow> e = IndexError"
  by (induction m ps rule: mark_points.induct) (auto split: sum.splits dest: set_cell_error)

lemma set_cell_grid:
  assumes "grid h w m" and "0 \<le> x" and "x < int w" and "0 \<le> y" and "y < int h"
  shows "set_cell m (- 1 - y) x v =
    Inr (m[nat (int h - 1 - y) := (m ! nat (int h - 1 - y))[nat x := v]])"
proof -
  have r: "nat (int h - 1 - y) < length m" using assms by (auto simp: grid_def)
  then have "length (m ! nat (int h - 1 - y)) = w" using assms(1) by (auto simp: grid_def)
  then show ?thesis
    using assms by (simp add: set_cell_def py_index_from_end py_index_from_start grid_def)
qed

lemma grid_update:
  assumes "grid h w m" and "r < h"
  shows "grid h w (m[r := (m ! r)[c := v]])"
  using assms by (auto simp: grid_def dest!: set_update_subset_insert [THEN subsetD])

text \<open>The loop invariant: the matrix keeps its shape, and a cell holds the marker
  exactly when a point was written there; every other cell is as before.\<close>

lemma mark_points_cells:
  assumes "grid h w m"
    and "\<forall>(x, y) \<in> set ps. 0 \<le> x \<and> x < int w \<and> 0 \<le> y \<and> y < int h"
  shows "\<exists>m'. mark_points m ps = Inr m' \<and> grid h w m' \<and>
    (\<forall>r < h. \<forall>c < w. m' ! r ! c =
       (if (int c, int h - 1 - int r) \<in> set ps then PROJECTILE else m ! r ! c))"
  using assms
proof (induction ps arbitrary: m)
  case Nil
  then show ?case by simp
next
  case (Cons p ps)
  obtain x y where p: "p = (x, y)" by (cases p)
  from Cons.prems p have xy: "0 \<le> x" "x < int w" "0 \<le> y" "y < int h" by auto
  define r0 where "r0 = nat (int h - 1 - y)"
  define m1 where "m1 = m[r0 := (m ! r0)[nat x := PROJECTILE]]"
  have r0: "r0 < h" using xy by (simp add: r0_def)
  have sc: "set_cell m (- 1 - y) x PROJECTILE = Inr m1"
    unfolding m1_def r0_def using Cons.prems(1) xy by (rule set_cell_grid)
  have g1: "grid h w m1" unfolding m1_def using Cons.prems(1) r0 by (rule grid_update)
  from Cons.IH [OF g1] Cons.prems(2) obtain m' where
    m': "mark_points m1 ps = Inr m'" "grid h w m'"
    "\<forall>r < h. \<forall>c < w. m' ! r ! c =
       (if (int c, int h - 1 - int r) \<in> set ps then PROJECTILE else m1 ! r ! c)"
    by auto
  have cell: "m1 ! r ! c = (if (int c, int h - 1 - int r) = (x, y) then PROJECTILE else m ! r ! c)"
    if "r < h" "c < w" for r c
  proof -
    have len: "length m = h" "length (m ! r0) = w"
      using Cons.prems(1) r0 by (auto simp: grid_def)
    have "(int h - 1 - int r = y) = (r = r0)" using xy that by (auto simp: r0_def)
    moreover have "(int c = x) = (c = nat x)" using xy by auto
    ultimately show ?thesis
      using that len r0 by (auto simp: m1_def nth_list_update)
  qed
  show ?case
    using m' cell sc by (auto simp: p)
qed

subsection \<open>The matrix\<close>

lemma trajectory_matrix_marks:
  assumes ne: "coordinates \<noteq> []"
    and nonneg: "\<forall>(x, y) \<in> set (rounded_coords coordinates). 0 \<le> x \<and> 0 \<le> y"
  defines "rc \<equiv> rounded_coords coordinates"
  defines "x_max \<equiv> Max (fst ` set rc)" and "y_max \<equiv> Max (snd ` set rc)"
  shows "\<exists>m. trajectory_matrix coordinates = Inr m \<and>
    grid (nat (y_max + 1)) (nat (x_max + 1)) m \<and>
    (\<forall>r < nat (y_max + 1). \<forall>c < nat (x_max + 1). m ! r ! c =
       (if (int c, y_max - int r) \<in> set rc then PROJECTILE else space))"
proof -
  have rc: "rc \<noteq> []" using ne by (simp add: rc_def)
  obtain px where px: "py_max_key fst rc = Inr px" "fst px = x_max"
    using py_max_key_Max [OF rc, of fst] by (auto simp: x_max_def)
  obtain py where py: "py_max_key snd rc = Inr py" "snd py = y_max"
    using py_max_key_Max [OF rc, of snd] by (auto simp: y_max_def)
  define h where "h = nat (y_max + 1)"
  define w where "w = nat (x_max + 1)"
  define m0 where "m0 = replicate h (replicate w space)"
  have tm: "trajectory_matrix coordinates = mark_points m0 rc"
    by (simp add: trajectory_matrix_def rc_def [symmetric] px py Let_def m0_def h_def w_def)
  have bounds: "\<forall>(x, y) \<in> set rc. 0 \<le> x \<and> x < int w \<and> 0 \<le> y \<and> y < int h"
  proof clarify
    fix x y assume xy: "(x, y) \<in> set rc"
    then have "0 \<le> x" "0 \<le> y" using nonneg by (auto simp: rc_def)
    moreover have "x \<le> x_max" unfolding x_max_def using xy by (intro Max_ge) force+
    moreover have "y \<le> y_max" unfolding y_max_def using xy by (intro Max_ge) force+
    ultimately show "0 \<le> x \<and> x < int w \<and> 0 \<le> y \<and> y < int h"
      by (simp add: w_def h_def)
  qed
  have g0: "grid h w m0" by (simp add: grid_def m0_def)
  from mark_points_cells [OF g0 bounds] obtain m' where
    m': "mark_points m0 rc = Inr m'" "grid h w m'"
    "\<forall>r < h. \<forall>c < w. m' ! r ! c =
       (if (int c, int h - 1 - int r) \<in> set rc then PROJECTILE else m0 ! r ! c)"
    by auto
  obtain x0 y0 where "(x0, y0) \<in> set rc" using rc by (cases rc) auto
  with bounds have "0 < h" by auto
  then have hy: "int h - 1 = y_max" by (auto simp: h_def)
  have "m' ! r ! c = (if (int c, y_max - int r) \<in> set rc then PROJECTILE else space)"
    if "r < h" "c < w" for r c
    using m'(3) that by (simp add: hy m0_def)
  with m' tm show ?thesis unfolding h_def [symmetric] w_def [symmetric] by auto
qed

lemma trajectory_matrix_error:
  assumes "trajectory_matrix coordinates = Inl e"
  shows "(coordinates = [] \<and> e = ValueError) \<or> (coordinates \<noteq> [] \<and> e = IndexError)"
proof (cases "coordinates = []")
  case True
  with assms show ?thesis by (simp add: trajectory_matrix_def rounded_coords_def)
next
  case False
  then have rc: "rounded_coords coordinates \<noteq> []" by simp
  obtain px where px: "py_max_key fst (rounded_coords coordinates) = Inr px"
    using py_max_key_Max [OF rc, of fst] by auto
  obtain py where py: "py_max_key snd (rounded_coords coordinates) = Inr py"
    using py_max_key_Max [OF rc, of snd] by auto
  from assms have "e = IndexError"
    by (auto simp: trajectory_matrix_def px py Let_def dest: mark_points_error)
  with False show ?thesis by simp
qed

lemma rounded_coords_3_4: "rounded_coords [(3, 4)] = [(3, 4)]"
  by (simp add: rounded_coords_def round_int_def py_round_def)

lemma trajectory_matrix_3_4:
  "trajectory_matrix [(3, 4)] =
     Inr ((replicate 5 (replicate 4 space))[0 := (replicate 4 space)[3 := PROJECTILE]])"
  by (simp add: trajectory_matrix_def rounded_coords_3_4 Let_def set_cell_def py_index_def)



subsection \<open>The text of the plot\<close>



lemma length_concat_cells:
  assumes "\<forall>cell \<in> set row. length cell = Suc 0"
  shows "length (concat row) = length row"
  using assms by (induction row) auto

lemma py_join_lines:
  "ss \<noteq> [] \<Longrightarrow> sep @ py_join sep ss = concat (map (\<lambda>l. sep @ l) ss)"
  by (induction sep ss rule: py_join.induct) simp_all



end
